theory Spec2Isabelle
  imports Main "HOL-Library.Sublist"
begin

section \<open>Data model of the versification files\<close>

text \<open>
  The extractor \<^verbatim>\<open>extract_scriptures.py\<close> reads one YAML document per canon and
  works on the dictionaries that \<^verbatim>\<open>yaml.safe_load\<close> returns. A dictionary is a
  record whose fields are options: \<open>None\<close> is a missing key. Reading a missing key
  with \<^verbatim>\<open>d[k]\<close> raises \<^verbatim>\<open>KeyError\<close>, reading it with \<^verbatim>\<open>d.get(k)\<close>
  gives \<^verbatim>\<open>None\<close> or the default.
\<close>

datatype error =
    FileNotFoundError string
  | KeyError string
  | RecursionError
  | ValueError

text \<open>An entry of \<^verbatim>\<open>sub_books\<close>.\<close>

record sub_book =
  sub_id :: "string option"
  sub_name :: "string option"
  sub_chapters :: "int option"
  sub_testament :: "string option"

text \<open>An entry of \<^verbatim>\<open>books\<close> or of \<^verbatim>\<open>additional_books\<close>.\<close>

record book_entry =
  entry_id :: "string option"
  entry_name :: "string option"
  chapters :: "int option"
  testament :: "string option"
  merge_with :: "string option"
  insert_after :: "string option"
  sub_books :: "sub_book list option"

text \<open>The document of one canon.\<close>

record canon =
  canon_name :: "string option"
  tradition :: "string option"
  extends :: "string option"
  book_count :: "int option"
  books :: "book_entry list option"
  additional_books :: "book_entry list option"

text \<open>The dictionaries that \<^verbatim>\<open>get_all_books\<close> builds.\<close>

record book_unit =
  unit_id :: string
  unit_name :: string
  unit_chapters :: int
  unit_testament :: string

text \<open>\<^verbatim>\<open>d.get(k, default)\<close>\<close>

definition get_default :: "'a option \<Rightarrow> 'a \<Rightarrow> 'a" where
  "get_default v d = (case v of None \<Rightarrow> d | Some x \<Rightarrow> x)"

text \<open>
  Truth value of \<^verbatim>\<open>d.get(k)\<close> for a key that holds a string: a missing key gives
  \<^verbatim>\<open>None\<close>, which is false, and so is the empty string.
\<close>

definition truthy :: "string option \<Rightarrow> bool" where
  "truthy v = (case v of None \<Rightarrow> False | Some s \<Rightarrow> s \<noteq> [])"

section \<open>Loading a versification\<close>

text \<open>
  The loop \<^verbatim>\<open>for i, book in enumerate(books): if book["id"] == insert_after\<close>:
  the index of the first entry with that id, \<open>None\<close> when the loop runs to its end,
  \<^verbatim>\<open>KeyError\<close> when an entry met on the way has no id.
\<close>

fun find_id :: "string \<Rightarrow> nat \<Rightarrow> book_entry list \<Rightarrow> error + nat option" where
  "find_id a i [] = Inr None"
| "find_id a i (book # bs) =
     (case entry_id book of
        None \<Rightarrow> Inl (KeyError ''id'')
      | Some x \<Rightarrow> if x = a then Inr (Some i) else find_id a (Suc i) bs)"

text \<open>\<^verbatim>\<open>xs.insert(i, x)\<close> for a non-negative index.\<close>

definition list_insert :: "nat \<Rightarrow> 'a \<Rightarrow> 'a list \<Rightarrow> 'a list" where
  "list_insert i x xs = take i xs @ x # drop i xs"

text \<open>The body of the loop over \<^verbatim>\<open>additional_books\<close>.\<close>

definition insert_book :: "book_entry list \<Rightarrow> book_entry \<Rightarrow> error + book_entry list" where
  "insert_book bs add_book =
     (if truthy (insert_after add_book) then
        (case find_id (the (insert_after add_book)) 0 bs of
           Inl e \<Rightarrow> Inl e
         | Inr (Some i) \<Rightarrow> Inr (list_insert (i + 1) add_book bs)
         | Inr None \<Rightarrow> Inr (bs @ [add_book]))
      else Inr (bs @ [add_book]))"

fun merge_books :: "book_entry list \<Rightarrow> book_entry list \<Rightarrow> error + book_entry list" where
  "merge_books bs [] = Inr bs"
| "merge_books bs (add_book # rest) =
     (case insert_book bs add_book of
        Inl e \<Rightarrow> Inl e
      | Inr bs' \<Rightarrow> merge_books bs' rest)"

text \<open>
  \<^verbatim>\<open>load_versification\<close>. The directory of YAML files is the map \<open>files\<close> from a
  name to the parsed document. The function calls itself on the parent, and Python
  bounds the depth of calls: the first argument is the number of nested calls still
  allowed, and a call made when none is left raises \<^verbatim>\<open>RecursionError\<close>.
\<close>

fun load_versification :: "nat \<Rightarrow> (string \<rightharpoonup> canon) \<Rightarrow> string \<Rightarrow> error + canon" where
  "load_versification 0 files name = Inl RecursionError"
| "load_versification (Suc depth) files name =
     (case files name of
        None \<Rightarrow> Inl (FileNotFoundError name)
      | Some data \<Rightarrow>
          (case extends data of
             None \<Rightarrow> Inr data
           | Some parent_name \<Rightarrow>
               (case load_versification depth files parent_name of
                  Inl e \<Rightarrow> Inl e
                | Inr parent \<Rightarrow>
                    (case merge_books (get_default (books parent) [])
                            (get_default (additional_books data) []) of
                       Inl e \<Rightarrow> Inl e
                     | Inr merged \<Rightarrow> Inr (data\<lparr>books := Some merged\<rparr>)))))"

section \<open>Flattening\<close>

text \<open>One unit of a composite entry.\<close>

definition sub_unit :: "book_entry \<Rightarrow> sub_book \<Rightarrow> error + book_unit" where
  "sub_unit book sub =
     (case sub_id sub of
        None \<Rightarrow> Inl (KeyError ''id'')
      | Some i \<Rightarrow>
          Inr \<lparr>unit_id = i,
               unit_name = get_default (sub_name sub) i,
               unit_chapters = get_default (sub_chapters sub) 1,
               unit_testament = get_default (testament book) ''OT''\<rparr>)"

fun sub_units :: "book_entry \<Rightarrow> sub_book list \<Rightarrow> error + book_unit list" where
  "sub_units book [] = Inr []"
| "sub_units book (sub # subs) =
     (case sub_unit book sub of
        Inl e \<Rightarrow> Inl e
      | Inr u \<Rightarrow> (case sub_units book subs of Inl e \<Rightarrow> Inl e | Inr us \<Rightarrow> Inr (u # us)))"

text \<open>
  The body of the loop of \<^verbatim>\<open>get_all_books\<close>: the units that one entry adds to the
  result.
\<close>

definition flatten_book :: "book_entry \<Rightarrow> error + book_unit list" where
  "flatten_book book =
     (if truthy (merge_with book) then Inr []
      else
        (case sub_books book of
           Some subs \<Rightarrow> sub_units book subs
         | None \<Rightarrow>
             (case chapters book of
                None \<Rightarrow> Inr []
              | Some c \<Rightarrow>
                  (case entry_id book of
                     None \<Rightarrow> Inl (KeyError ''id'')
                   | Some i \<Rightarrow>
                       (case entry_name book of
                          None \<Rightarrow> Inl (KeyError ''name'')
                        | Some n \<Rightarrow>
                            Inr [\<lparr>unit_id = i, unit_name = n, unit_chapters = c,
                                  unit_testament = get_default (testament book) ''OT''\<rparr>])))))"

fun flatten_books :: "book_entry list \<Rightarrow> error + book_unit list" where
  "flatten_books [] = Inr []"
| "flatten_books (book # bs) =
     (case flatten_book book of
        Inl e \<Rightarrow> Inl e
      | Inr us \<Rightarrow> (case flatten_books bs of Inl e \<Rightarrow> Inl e | Inr vs \<Rightarrow> Inr (us @ vs)))"

definition get_all_books :: "canon \<Rightarrow> error + book_unit list" where
  "get_all_books versification = flatten_books (get_default (books versification) [])"


section \<open>The Protestant canon\<close>

text \<open>The table \<^verbatim>\<open>BOOKS\<close> of \<^verbatim>\<open>extract_bibles.py\<close>: id, name, testament, chapters.\<close>

definition BOOKS :: "(string \<times> string \<times> string \<times> int) list" where
  "BOOKS =
    [(''Gen'', ''Genesis'', ''OT'', 50),
     (''Exod'', ''Exodus'', ''OT'', 40),
     (''Lev'', ''Leviticus'', ''OT'', 27),
     (''Num'', ''Numbers'', ''OT'', 36),
     (''Deut'', ''Deuteronomy'', ''OT'', 34),
     (''Josh'', ''Joshua'', ''OT'', 24),
     (''Judg'', ''Judges'', ''OT'', 21),
     (''Ruth'', ''Ruth'', ''OT'', 4),
     (''1Sam'', ''1 Samuel'', ''OT'', 31),
     (''2Sam'', ''2 Samuel'', ''OT'', 24),
     (''1Kgs'', ''1 Kings'', ''OT'', 22),
     (''2Kgs'', ''2 Kings'', ''OT'', 25),
     (''1Chr'', ''1 Chronicles'', ''OT'', 29),
     (''2Chr'', ''2 Chronicles'', ''OT'', 36),
     (''Ezra'', ''Ezra'', ''OT'', 10),
     (''Neh'', ''Nehemiah'', ''OT'', 13),
     (''Esth'', ''Esther'', ''OT'', 10),
     (''Job'', ''Job'', ''OT'', 42),
     (''Ps'', ''Psalms'', ''OT'', 150),
     (''Prov'', ''Proverbs'', ''OT'', 31),
     (''Eccl'', ''Ecclesiastes'', ''OT'', 12),
     (''Song'', ''Song of Solomon'', ''OT'', 8),
     (''Isa'', ''Isaiah'', ''OT'', 66),
     (''Jer'', ''Jeremiah'', ''OT'', 52),
     (''Lam'', ''Lamentations'', ''OT'', 5),
     (''Ezek'', ''Ezekiel'', ''OT'', 48),
     (''Dan'', ''Daniel'', ''OT'', 12),
     (''Hos'', ''Hosea'', ''OT'', 14),
     (''Joel'', ''Joel'', ''OT'', 3),
     (''Amos'', ''Amos'', ''OT'', 9),
     (''Obad'', ''Obadiah'', ''OT'', 1),
     (''Jonah'', ''Jonah'', ''OT'', 4),
     (''Mic'', ''Micah'', ''OT'', 7),
     (''Nah'', ''Nahum'', ''OT'', 3),
     (''Hab'', ''Habakkuk'', ''OT'', 3),
     (''Zeph'', ''Zephaniah'', ''OT'', 3),
     (''Hag'', ''Haggai'', ''OT'', 2),
     (''Zech'', ''Zechariah'', ''OT'', 14),
     (''Mal'', ''Malachi'', ''OT'', 4),
     (''Matt'', ''Matthew'', ''NT'', 28),
     (''Mark'', ''Mark'', ''NT'', 16),
     (''Luke'', ''Luke'', ''NT'', 24),
     (''John'', ''John'', ''NT'', 21),
     (''Acts'', ''Acts'', ''NT'', 28),
     (''Rom'', ''Romans'', ''NT'', 16),
     (''1Cor'', ''1 Corinthians'', ''NT'', 16),
     (''2Cor'', ''2 Corinthians'', ''NT'', 13),
     (''Gal'', ''Galatians'', ''NT'', 6),
     (''Eph'', ''Ephesians'', ''NT'', 6),
     (''Phil'', ''Philippians'', ''NT'', 4),
     (''Col'', ''Colossians'', ''NT'', 4),
     (''1Thess'', ''1 Thessalonians'', ''NT'', 5),
     (''2Thess'', ''2 Thessalonians'', ''NT'', 3),
     (''1Tim'', ''1 Timothy'', ''NT'', 6),
     (''2Tim'', ''2 Timothy'', ''NT'', 4),
     (''Titus'', ''Titus'', ''NT'', 3),
     (''Phlm'', ''Philemon'', ''NT'', 1),
     (''Heb'', ''Hebrews'', ''NT'', 13),
     (''Jas'', ''James'', ''NT'', 5),
     (''1Pet'', ''1 Peter'', ''NT'', 5),
     (''2Pet'', ''2 Peter'', ''NT'', 3),
     (''1John'', ''1 John'', ''NT'', 5),
     (''2John'', ''2 John'', ''NT'', 1),
     (''3John'', ''3 John'', ''NT'', 1),
     (''Jude'', ''Jude'', ''NT'', 1),
     (''Rev'', ''Revelation'', ''NT'', 22)]"

definition book_of_row :: "string \<times> string \<times> string \<times> int \<Rightarrow> book_entry" where
  "book_of_row row =
     (case row of (i, n, t, c) \<Rightarrow>
        \<lparr>entry_id = Some i, entry_name = Some n, chapters = Some c, testament = Some t,
         merge_with = None, insert_after = None, sub_books = None\<rparr>)"

definition unit_of_row :: "string \<times> string \<times> string \<times> int \<Rightarrow> book_unit" where
  "unit_of_row row =
     (case row of (i, n, t, c) \<Rightarrow>
        \<lparr>unit_id = i, unit_name = n, unit_chapters = c, unit_testament = t\<rparr>)"

text \<open>
  Modelled from the spec: the file \<^verbatim>\<open>versifications/protestant.yaml\<close> that
  \<^verbatim>\<open>load_versification("protestant")\<close> reads is not among the sources. The spec
  gives the Protestant canon 66 entries between its opening and its closing book, and
  the tests read its name, tradition and book count; its books are taken to be the rows
  of \<open>BOOKS\<close>, the only table of that canon in the sources.
\<close>

definition protestant :: canon where
  "protestant =
     \<lparr>canon_name = Some ''Protestant'', tradition = Some ''christian'', extends = None,
      book_count = Some 66, books = Some (map book_of_row BOOKS), additional_books = None\<rparr>"

definition versifications :: "string \<rightharpoonup> canon" where
  "versifications = [''protestant'' \<mapsto> protestant]"

section \<open>Text of the retrieval tool\<close>

text \<open>
  A Python string is the list of its code points; the model has the code points below
  256. On them \<^verbatim>\<open>str.strip\<close>, \<^verbatim>\<open>str.split\<close> and the class \<^verbatim>\<open>\s\<close> agree on
  what white space is, and \<^verbatim>\<open>\d\<close> is a decimal digit.
\<close>

definition newline :: char where
  "newline = CHR 0x0A"

definition is_space :: "char \<Rightarrow> bool" where
  "is_space c = (c \<in> set [CHR 0x09, CHR 0x0A, CHR 0x0B, CHR 0x0C, CHR 0x0D,
                            CHR 0x1C, CHR 0x1D, CHR 0x1E, CHR 0x1F, CHR 0x20,
                            CHR 0x85, CHR 0xA0])"

definition is_digit :: "char \<Rightarrow> bool" where
  "is_digit c = (c \<in> set ''0123456789'')"

definition is_alpha :: "char \<Rightarrow> bool" where
  "is_alpha c = (c \<in> set ''ABCDEFGHIJKLMNOPQRSTUVWXYZabcdefghijklmnopqrstuvwxyz'')"

text \<open>\<^verbatim>\<open>s.strip()\<close>\<close>

definition strip :: "string \<Rightarrow> string" where
  "strip s = rev (dropWhile is_space (rev (dropWhile is_space s)))"

text \<open>
  \<^verbatim>\<open>s.split()\<close>: the maximal runs of characters that are not white space. The first
  argument is the run read so far.
\<close>

fun split_words :: "string \<Rightarrow> string \<Rightarrow> string list" where
  "split_words w [] = (if w = [] then [] else [w])"
| "split_words w (c # cs) =
     (if is_space c then (if w = [] then split_words [] cs else w # split_words [] cs)
      else split_words (w @ [c]) cs)"

definition py_split :: "string \<Rightarrow> string list" where
  "py_split s = split_words [] s"

text \<open>\<^verbatim>\<open>sep.join(ws)\<close>\<close>

fun join :: "string \<Rightarrow> string list \<Rightarrow> string" where
  "join sep [] = []"
| "join sep [w] = w"
| "join sep (w # ws) = w @ sep @ join sep ws"

section \<open>Regular expressions\<close>

text \<open>
  The patterns of the two scripts use literals, character classes, the anchors
  \<^verbatim>\<open>^\<close> and \<^verbatim>\<open>$\<close>, sequence, alternative, greedy repetition and one capture group.
\<close>

datatype regex =
    Eps
  | Lit char
  | Class "char \<Rightarrow> bool"
  | Bos
  | Eos
  | Seq regex regex
  | Alt regex regex
  | Star regex
  | Group regex

definition Plus :: "regex \<Rightarrow> regex" where
  "Plus r = Seq r (Star r)"

definition Opt :: "regex \<Rightarrow> regex" where
  "Opt r = Alt r Eps"

fun seqs :: "regex list \<Rightarrow> regex" where
  "seqs [] = Eps"
| "seqs [r] = r"
| "seqs (r # rs) = Seq r (seqs rs)"

text \<open>
  A state of the matcher is the text still to read and the text of the group, once the
  group has matched.
\<close>

type_synonym mstate = "string \<times> string option"

text \<open>
  \<open>rmatch n r st\<close> lists the states in which a match of \<open>r\<close> begun in \<open>st\<close> can end,
  in the order in which a backtracking matcher tries them: the left alternative before
  the right one, one more round of a repetition before none. The head of the list is
  the match that Python reports. \<open>n\<close> is the length of the whole subject: \<^verbatim>\<open>^\<close> holds
  where all of it is still to read, and \<^verbatim>\<open>$\<close> holds at the end and before a final
  newline. A round of a repetition that reads nothing ends the repetition.
\<close>

fun rmatch :: "nat \<Rightarrow> regex \<Rightarrow> mstate \<Rightarrow> mstate list" where
  "rmatch n Eps st = [st]"
| "rmatch n (Lit c) (s, g) =
     (case s of [] \<Rightarrow> [] | x # xs \<Rightarrow> if x = c then [(xs, g)] else [])"
| "rmatch n (Class p) (s, g) =
     (case s of [] \<Rightarrow> [] | x # xs \<Rightarrow> if p x then [(xs, g)] else [])"
| "rmatch n Bos (s, g) = (if length s = n then [(s, g)] else [])"
| "rmatch n Eos (s, g) = (if s = [] \<or> s = [newline] then [(s, g)] else [])"
| "rmatch n (Seq r1 r2) st = concat (map (rmatch n r2) (rmatch n r1 st))"
| "rmatch n (Alt r1 r2) st = rmatch n r1 st @ rmatch n r2 st"
| "rmatch n (Star r) st =
     concat (map (\<lambda>st'. if length (fst st') < length (fst st) then rmatch n (Star r) st' else [])
               (rmatch n r st)) @ [st]"
| "rmatch n (Group r) (s, g) =
     map (\<lambda>(s', _). (s', Some (take (length s - length s') s))) (rmatch n r (s, g))"

text \<open>\<^verbatim>\<open>re.match(r, s)\<close>: the match at the start of \<open>s\<close>.\<close>

definition re_match :: "regex \<Rightarrow> string \<Rightarrow> mstate option" where
  "re_match r s = (case rmatch (length s) r (s, None) of [] \<Rightarrow> None | st # _ \<Rightarrow> Some st)"

text \<open>
  The leftmost match in the rest \<open>s\<close> of a subject of length \<open>n\<close>: the text skipped
  before it, and the state at its end.
\<close>

fun scan :: "nat \<Rightarrow> regex \<Rightarrow> string \<Rightarrow> (string \<times> mstate) option" where
  "scan n r [] = (case rmatch n r ([], None) of [] \<Rightarrow> None | st # _ \<Rightarrow> Some ([], st))"
| "scan n r (c # cs) =
     (case rmatch n r (c # cs, None) of
        st # _ \<Rightarrow> Some ([], st)
      | [] \<Rightarrow>
          (case scan n r cs of
             None \<Rightarrow> None
           | Some (skipped, st) \<Rightarrow> Some (c # skipped, st)))"

text \<open>\<^verbatim>\<open>re.search(r, s)\<close>\<close>

definition re_search :: "regex \<Rightarrow> string \<Rightarrow> (string \<times> mstate) option" where
  "re_search r s = scan (length s) r s"

text \<open>
  \<^verbatim>\<open>re.split(r, s)\<close> for a pattern with one group: the text before each match and the
  text of its group, then the text after the last match. The patterns used here read
  at least one character; the comparison of lengths only makes the recursion end.
\<close>

function split_from :: "nat \<Rightarrow> regex \<Rightarrow> string \<Rightarrow> string list" where
  "split_from n r s =
     (case scan n r s of
        None \<Rightarrow> [s]
      | Some (skipped, rest, g) \<Rightarrow>
          if length rest < length s then skipped # get_default g [] # split_from n r rest
          else [s])"
  by pat_completeness auto
termination
  by (relation "measure (\<lambda>(n, r, s). length s)") auto

definition re_split :: "regex \<Rightarrow> string \<Rightarrow> string list" where
  "re_split r s = split_from (length s) r s"

text \<open>\<^verbatim>\<open>re.sub(r, '', s)\<close>: every match is cut out.\<close>

function sub_from :: "nat \<Rightarrow> regex \<Rightarrow> string \<Rightarrow> string" where
  "sub_from n r s =
     (case scan n r s of
        None \<Rightarrow> s
      | Some (skipped, rest, g) \<Rightarrow>
          if length rest < length s then skipped @ sub_from n r rest
          else s)"
  by pat_completeness auto
termination
  by (relation "measure (\<lambda>(n, r, s). length s)") auto

definition re_sub :: "regex \<Rightarrow> string \<Rightarrow> string" where
  "re_sub r s = sub_from (length s) r s"

text \<open>\<^verbatim>\<open>\n\([^)]+\)\s*$\<close>\<close>

definition attribution_pattern :: regex where
  "attribution_pattern =
     seqs [Lit newline, Lit (CHR ''(''), Plus (Class (\<lambda>c. c \<noteq> CHR '')'')), Lit (CHR '')''),
           Star (Class is_space), Eos]"

text \<open>\<^verbatim>\<open>[A-Za-z0-9 ]+\s+\d+:\d+\<close>, the group of the next pattern.\<close>

definition reference_pattern :: regex where
  "reference_pattern =
     seqs [Plus (Class (\<lambda>c. is_alpha c \<or> is_digit c \<or> c = CHR '' '')),
           Plus (Class is_space), Plus (Class is_digit), Lit (CHR '':''),
           Plus (Class is_digit)]"

text \<open>\<^verbatim>\<open>(?:^|\n)([A-Za-z0-9 ]+\s+\d+:\d+):\s*\<close>\<close>

definition marker_pattern :: regex where
  "marker_pattern =
     seqs [Alt Bos (Lit newline), Group reference_pattern, Lit (CHR '':''),
           Star (Class is_space)]"

text \<open>\<^verbatim>\<open>:(\d+)$\<close>\<close>

definition verse_pattern :: regex where
  "verse_pattern = seqs [Lit (CHR '':''), Group (Plus (Class is_digit)), Eos]"

text \<open>
  \<^verbatim>\<open>^(?:[1-4]\s+|I{1,3}V?\s+)?[A-Za-z]+(?:\s+(?:of\s+)?[A-Za-z]+)*\s+\d+:\d+:?$\<close>
\<close>

definition placeholder_pattern :: regex where
  "placeholder_pattern =
     seqs [Bos,
           Opt (Alt (seqs [Class (\<lambda>c. c \<in> set ''1234''), Plus (Class is_space)])
                    (seqs [Lit (CHR ''I''), Opt (Seq (Lit (CHR ''I'')) (Opt (Lit (CHR ''I'')))),
                           Opt (Lit (CHR ''V'')), Plus (Class is_space)])),
           Plus (Class is_alpha),
           Star (seqs [Plus (Class is_space),
                       Opt (seqs [Lit (CHR ''o''), Lit (CHR ''f''), Plus (Class is_space)]),
                       Plus (Class is_alpha)]),
           Plus (Class is_space), Plus (Class is_digit), Lit (CHR '':''),
           Plus (Class is_digit), Opt (Lit (CHR '':'')), Eos]"

section \<open>Parsing the text of a chapter\<close>

definition is_placeholder_text :: "string \<Rightarrow> bool" where
  "is_placeholder_text text0 =
     (let text = strip text0 in
      if length text < 5 then True
      else re_match placeholder_pattern text \<noteq> None)"

record verse =
  verse_number :: nat
  verse_text :: string

definition digit_value :: "char \<Rightarrow> nat" where
  "digit_value c = of_char c - 48"

text \<open>
  \<^verbatim>\<open>int(ds)\<close> for a string of digits. Python refuses a string of more digits than
  \<^verbatim>\<open>sys.get_int_max_str_digits()\<close> (4300 unless set otherwise, 0 for no limit) with
  \<^verbatim>\<open>ValueError\<close>; an interpreter that has no such limit is the case 0.
\<close>

definition py_int :: "nat \<Rightarrow> string \<Rightarrow> error + nat" where
  "py_int max_str_digits ds =
     (if max_str_digits \<noteq> 0 \<and> max_str_digits < length ds then Inl ValueError
      else Inr (foldl (\<lambda>n c. 10 * n + digit_value c) 0 ds))"

text \<open>
  The body of the loop of \<^verbatim>\<open>parse_diatheke_output\<close> in \<^verbatim>\<open>extract_scriptures.py\<close>,
  for the parts \<^verbatim>\<open>parts[i]\<close> and \<^verbatim>\<open>parts[i + 1]\<close>: the verse it appends, if any.
\<close>

definition verse_of :: "nat \<Rightarrow> string \<Rightarrow> string \<Rightarrow> error + verse option" where
  "verse_of lim part_ref part_text =
     (let ref = strip part_ref; text = strip part_text in
      case re_search verse_pattern ref of
        Some (_, _, Some digits) \<Rightarrow>
          if text \<noteq> [] then
            if is_placeholder_text text then Inr None
            else
              (case py_int lim digits of
                 Inl e \<Rightarrow> Inl e
               | Inr verse_num \<Rightarrow>
                   Inr (Some \<lparr>verse_number = verse_num,
                               verse_text = join '' '' (py_split text)\<rparr>))
          else Inr None
      | _ \<Rightarrow> Inr None)"

text \<open>The same in \<^verbatim>\<open>extract_bibles.py\<close>, which has no test for placeholders.\<close>

definition verse_of_bibles :: "nat \<Rightarrow> string \<Rightarrow> string \<Rightarrow> error + verse option" where
  "verse_of_bibles lim part_ref part_text =
     (let ref = strip part_ref; text = strip part_text in
      case re_search verse_pattern ref of
        Some (_, _, Some digits) \<Rightarrow>
          if text \<noteq> [] then
            (case py_int lim digits of
               Inl e \<Rightarrow> Inl e
             | Inr verse_num \<Rightarrow>
                 Inr (Some \<lparr>verse_number = verse_num,
                             verse_text = join '' '' (py_split text)\<rparr>))
          else Inr None
      | _ \<Rightarrow> Inr None)"

text \<open>
  The loop \<^verbatim>\<open>for i in range(1, len(parts), 2): if i + 1 < len(parts)\<close>, on the parts
  from index 1 on; \<open>body\<close> is the body of the loop.
\<close>

fun verses_of :: "(string \<Rightarrow> string \<Rightarrow> error + verse option) \<Rightarrow> string list \<Rightarrow> error + verse list"
  where
  "verses_of body (part_ref # part_text # rest) =
     (case body part_ref part_text of
        Inl e \<Rightarrow> Inl e
      | Inr v \<Rightarrow>
          (case verses_of body rest of
             Inl e \<Rightarrow> Inl e
           | Inr verses \<Rightarrow> Inr (case v of None \<Rightarrow> verses | Some x \<Rightarrow> x # verses)))"
| "verses_of body rest = Inr []"

text \<open>\<^verbatim>\<open>parse_diatheke_output\<close> of \<^verbatim>\<open>extract_scriptures.py\<close>.\<close>

definition parse_diatheke_output :: "nat \<Rightarrow> string \<Rightarrow> error + verse list" where
  "parse_diatheke_output lim output0 =
     (let output = re_sub attribution_pattern (strip output0);
          parts = re_split marker_pattern output
      in verses_of (verse_of lim) (drop 1 parts))"

text \<open>\<^verbatim>\<open>parse_diatheke_output\<close> of \<^verbatim>\<open>extract_bibles.py\<close>.\<close>

definition parse_diatheke_output_bibles :: "nat \<Rightarrow> string \<Rightarrow> error + verse list" where
  "parse_diatheke_output_bibles lim output0 =
     (let output = re_sub attribution_pattern (strip output0);
          parts = re_split marker_pattern output
      in verses_of (verse_of_bibles lim) (drop 1 parts))"


section \<open>Well-formed documents and the reading of the specification\<close>

text \<open>
  An entry can be flattened when the keys that \<^verbatim>\<open>get_all_books\<close> reads with
  \<^verbatim>\<open>d[k]\<close> are there: the id of every sub-book, and the id and the name of an entry
  that has a chapter count.
\<close>

definition flattenable :: "book_entry \<Rightarrow> bool" where
  "flattenable b =
     (case sub_books b of
        Some subs \<Rightarrow> list_all (\<lambda>s. sub_id s \<noteq> None) subs
      | None \<Rightarrow> chapters b = None \<or> (entry_id b \<noteq> None \<and> entry_name b \<noteq> None))"

text \<open>
  What the specification lets an entry contribute to the flattened list, as pairs of
  id and chapter count: nothing when \<^verbatim>\<open>merge_with\<close> is set, its sub-books when it is
  composite, nothing when it has no chapter count, itself otherwise.
\<close>

definition emitted :: "book_entry \<Rightarrow> (string \<times> int) list" where
  "emitted b =
     (if merge_with b \<noteq> None then []
      else
        (case sub_books b of
           Some subs \<Rightarrow> map (\<lambda>s. (the (sub_id s), get_default (sub_chapters s) 1)) subs
         | None \<Rightarrow> (case chapters b of None \<Rightarrow> [] | Some c \<Rightarrow> [(the (entry_id b), c)])))"

text \<open>An entry has an id when the key is there and its value is not empty.\<close>

definition has_id :: "book_entry \<Rightarrow> bool" where
  "has_id b = (case entry_id b of None \<Rightarrow> False | Some i \<Rightarrow> i \<noteq> [])"

text \<open>
  The merge of the specification: for each additional entry in turn, the index of the
  entry whose id is the target; the entry goes right after that index, or to the end
  when there is no target or no such entry.
\<close>

definition spec_locate :: "string \<Rightarrow> book_entry list \<Rightarrow> nat option" where
  "spec_locate a bs =
     (if Some a \<in> set (map entry_id bs)
      then Some (length (takeWhile (\<lambda>b. entry_id b \<noteq> Some a) bs))
      else None)"

definition spec_splice :: "book_entry list \<Rightarrow> book_entry \<Rightarrow> book_entry list" where
  "spec_splice bs add_book =
     (case insert_after add_book of
        None \<Rightarrow> bs @ [add_book]
      | Some a \<Rightarrow>
          (case spec_locate a bs of
             None \<Rightarrow> bs @ [add_book]
           | Some i \<Rightarrow> take (Suc i) bs @ add_book # drop (Suc i) bs))"

definition spec_merge :: "book_entry list \<Rightarrow> book_entry list \<Rightarrow> book_entry list" where
  "spec_merge parent_books adds = foldl spec_splice parent_books adds"



text \<open>The parts that the loop of the parser reads together: a reference and its body.\<close>

fun pairs :: "'a list \<Rightarrow> ('a \<times> 'a) list" where
  "pairs (x # y # rest) = (x, y) # pairs rest"
| "pairs rest = []"

definition marker_pairs :: "string \<Rightarrow> (string \<times> string) list" where
  "marker_pairs output0 =
     pairs (drop 1 (re_split marker_pattern (re_sub attribution_pattern (strip output0))))"

text \<open>Only white space, or nothing at all.\<close>

definition blank :: "string \<Rightarrow> bool" where
  "blank s = list_all is_space s"

text \<open>
  A line of attribution such as \<^verbatim>\<open>(KJV)\<close>: a parenthesis, then one character or more,
  none of them a closing parenthesis or a newline, then the closing parenthesis.
\<close>

definition attribution_line :: "string \<Rightarrow> bool" where
  "attribution_line s =
     (case s of
        [] \<Rightarrow> False
      | c # cs \<Rightarrow>
          c = CHR ''('' \<and> cs \<noteq> [] \<and> last cs = CHR '')'' \<and> butlast cs \<noteq> [] \<and>
          list_all (\<lambda>x. x \<noteq> CHR '')'' \<and> x \<noteq> newline) (butlast cs))"

section \<open>Example documents\<close>

definition plain_entry :: "string \<Rightarrow> string \<Rightarrow> int \<Rightarrow> string \<Rightarrow> book_entry" where
  "plain_entry i n c t =
     \<lparr>entry_id = Some i, entry_name = Some n, chapters = Some c, testament = Some t,
      merge_with = None, insert_after = None, sub_books = None\<rparr>"

definition the_twelve :: book_entry where
  "the_twelve =
     \<lparr>entry_id = Some ''Twelve'', entry_name = Some ''The Twelve'', chapters = None,
      testament = Some ''OT'', merge_with = None, insert_after = None,
      sub_books = Some
        [\<lparr>sub_id = Some ''Hos'', sub_name = Some ''Hosea'', sub_chapters = Some 14,
          sub_testament = None\<rparr>,
         \<lparr>sub_id = Some ''Obad'', sub_name = None, sub_chapters = None,
          sub_testament = Some ''NT''\<rparr>]\<rparr>"

definition tanakh_example :: canon where
  "tanakh_example =
     \<lparr>canon_name = Some ''Tanakh'', tradition = Some ''jewish'', extends = None,
      book_count = Some 24,
      books = Some
        [plain_entry ''Gen'' ''Genesis'' 50 ''OT'',
         \<lparr>entry_id = Some ''Neviim'', entry_name = Some ''Prophets'', chapters = None,
          testament = None, merge_with = None, insert_after = None, sub_books = None\<rparr>,
         the_twelve,
         (plain_entry ''EsthGr'' ''Additions to Esther'' 6 ''DC'')\<lparr>merge_with := Some ''Esth''\<rparr>,
         plain_entry ''Ps'' ''Psalms'' 150 ''OT''],
      additional_books = None\<rparr>"

text \<open>A canon of four books and a canon that extends it.\<close>

definition example_parent :: canon where
  "example_parent =
     \<lparr>canon_name = Some ''Parent'', tradition = Some ''christian'', extends = None,
      book_count = Some 4,
      books = Some
        [plain_entry ''Ezra'' ''Ezra'' 10 ''OT'', plain_entry ''Neh'' ''Nehemiah'' 13 ''OT'',
         plain_entry ''Esth'' ''Esther'' 10 ''OT'', plain_entry ''Mal'' ''Malachi'' 4 ''OT''],
      additional_books = None\<rparr>"

definition example_child :: canon where
  "example_child =
     \<lparr>canon_name = Some ''Child'', tradition = Some ''christian'',
      extends = Some ''parent'', book_count = Some 8, books = None,
      additional_books = Some
        [(plain_entry ''Tob'' ''Tobit'' 14 ''DC'')\<lparr>insert_after := Some ''Neh''\<rparr>,
         (plain_entry ''Jdt'' ''Judith'' 16 ''DC'')\<lparr>insert_after := Some ''Neh''\<rparr>,
         (plain_entry ''EsthGr'' ''Additions to Esther'' 6 ''DC'')
           \<lparr>insert_after := Some ''Esth'', merge_with := Some ''Esth''\<rparr>,
         (plain_entry ''1En'' ''Enoch'' 108 ''DC'')\<lparr>insert_after := Some ''Jub''\<rparr>,
         plain_entry ''Odes'' ''Odes'' 14 ''DC'']\<rparr>"

definition example_files :: "string \<rightharpoonup> canon" where
  "example_files = [''parent'' \<mapsto> example_parent, ''child'' \<mapsto> example_child]"

section \<open>Flattening: proofs\<close>

lemma sub_units_Inr:
  "list_all (\<lambda>s. sub_id s \<noteq> None) subs \<Longrightarrow>
   \<exists>us. sub_units b subs = Inr us \<and> length us = length subs \<and>
     (\<forall>k<length subs.
        unit_id (us ! k) = the (sub_id (subs ! k)) \<and>
        unit_name (us ! k) = get_default (sub_name (subs ! k)) (the (sub_id (subs ! k))) \<and>
        unit_chapters (us ! k) = get_default (sub_chapters (subs ! k)) 1 \<and>
        unit_testament (us ! k) = get_default (testament b) ''OT'')"
proof (induction subs)
  case Nil
  then show ?case by simp
next
  case (Cons s subs)
  then obtain us where us: "sub_units b subs = Inr us" "length us = length subs"
    "\<forall>k<length subs.
        unit_id (us ! k) = the (sub_id (subs ! k)) \<and>
        unit_name (us ! k) = get_default (sub_name (subs ! k)) (the (sub_id (subs ! k))) \<and>
        unit_chapters (us ! k) = get_default (sub_chapters (subs ! k)) 1 \<and>
        unit_testament (us ! k) = get_default (testament b) ''OT''"
    by auto
  from Cons.prems obtain i where i: "sub_id s = Some i" by auto
  let ?u = "\<lparr>unit_id = i, unit_name = get_default (sub_name s) i,
             unit_chapters = get_default (sub_chapters s) 1,
             unit_testament = get_default (testament b) ''OT''\<rparr>"
  have "sub_units b (s # subs) = Inr (?u # us)"
    using us(1) i by (simp add: sub_unit_def)
  moreover have "\<forall>k<length (s # subs).
        unit_id ((?u # us) ! k) = the (sub_id ((s # subs) ! k)) \<and>
        unit_name ((?u # us) ! k) =
          get_default (sub_name ((s # subs) ! k)) (the (sub_id ((s # subs) ! k))) \<and>
        unit_chapters ((?u # us) ! k) = get_default (sub_chapters ((s # subs) ! k)) 1 \<and>
        unit_testament ((?u # us) ! k) = get_default (testament b) ''OT''"
    using us(3) i by (auto simp: nth_Cons split: nat.splits)
  ultimately show ?case using us(2) by auto
qed

lemma flatten_book_total: "flattenable b \<Longrightarrow> \<exists>us. flatten_book b = Inr us"
  using sub_units_Inr [of _ b]
  by (auto simp: flattenable_def flatten_book_def split: option.splits)

lemma flatten_books_total: "list_all flattenable bs \<Longrightarrow> \<exists>us. flatten_books bs = Inr us"
proof (induction bs)
  case Nil
  then show ?case by simp
next
  case (Cons b bs)
  then obtain us vs where "flatten_book b = Inr us" "flatten_books bs = Inr vs"
    using flatten_book_total by fastforce
  then show ?case by simp
qed

lemma flatten_books_append:
  "flatten_books (xs @ ys) =
     (case flatten_books xs of
        Inl e \<Rightarrow> Inl e
      | Inr us \<Rightarrow> (case flatten_books ys of Inl e \<Rightarrow> Inl e | Inr vs \<Rightarrow> Inr (us @ vs)))"
  by (induction xs) (auto split: sum.splits)

lemma flatten_books_around:
  assumes "list_all flattenable (pre @ b # post)" and "flatten_book b = Inr us"
  shows "\<exists>us1 us2. flatten_books pre = Inr us1 \<and> flatten_books post = Inr us2 \<and>
           flatten_books (pre @ b # post) = Inr (us1 @ us @ us2)"
proof -
  from assms(1) have "list_all flattenable pre" "list_all flattenable post" by simp_all
  then obtain us1 us2 where "flatten_books pre = Inr us1" "flatten_books post = Inr us2"
    using flatten_books_total by blast
  with assms(2) show ?thesis by (simp add: flatten_books_append)
qed



text \<open>
  C5, as amended. A composite entry that is not merged into another contributes one
  unit per sub-book. Every such unit has the testament of the composite entry, or
  \<^verbatim>\<open>OT\<close> when the composite entry names none, whatever the sub-book says of its own
  testament; its name is the sub-book's name, or the sub-book's id when it has no name.
\<close>

theorem sub_book_testament_and_name:
  assumes "books v = Some (pre @ b # post)"
    and "list_all flattenable (pre @ b # post)"
    and "\<not> truthy (merge_with b)"
    and "sub_books b = Some subs"
  shows "\<exists>us1 us us2.
           flatten_books pre = Inr us1 \<and> flatten_books post = Inr us2 \<and>
           get_all_books v = Inr (us1 @ us @ us2) \<and> length us = length subs \<and>
           (\<forall>k<length subs.
              unit_id (us ! k) = the (sub_id (subs ! k)) \<and>
              unit_testament (us ! k) = get_default (testament b) ''OT'' \<and>
              unit_name (us ! k) = get_default (sub_name (subs ! k)) (the (sub_id (subs ! k))))"
proof -
  from assms(2,4) have "list_all (\<lambda>s. sub_id s \<noteq> None) subs"
    by (simp add: flattenable_def)
  then obtain us where us: "sub_units b subs = Inr us" "length us = length subs"
    "\<forall>k<length subs.
        unit_id (us ! k) = the (sub_id (subs ! k)) \<and>
        unit_name (us ! k) = get_default (sub_name (subs ! k)) (the (sub_id (subs ! k))) \<and>
        unit_chapters (us ! k) = get_default (sub_chapters (subs ! k)) 1 \<and>
        unit_testament (us ! k) = get_default (testament b) ''OT''"
    using sub_units_Inr by blast
  from us(1) assms(3,4) have "flatten_book b = Inr us"
    by (simp add: flatten_book_def)
  then obtain us1 us2 where around: "flatten_books pre = Inr us1" "flatten_books post = Inr us2"
    "flatten_books (pre @ b # post) = Inr (us1 @ us @ us2)"
    using flatten_books_around [OF assms(2)] by blast
  from around(3) assms(1) have "get_all_books v = Inr (us1 @ us @ us2)"
    by (simp add: get_all_books_def get_default_def)
  with around(1,2) us(2,3) show ?thesis by blast
qed

theorem sub_book_testament_and_name_witness:
  "\<exists>us1 us us2.
     flatten_books (take 2 (the (books tanakh_example))) = Inr us1 \<and>
     flatten_books (drop 3 (the (books tanakh_example))) = Inr us2 \<and>
     get_all_books tanakh_example = Inr (us1 @ us @ us2) \<and> length us = 2 \<and>
     unit_id (us ! 0) = ''Hos'' \<and> unit_testament (us ! 0) = ''OT'' \<and>
     unit_name (us ! 0) = ''Hosea'' \<and>
     unit_id (us ! 1) = ''Obad'' \<and> unit_testament (us ! 1) = ''OT'' \<and>
     unit_name (us ! 1) = ''Obad''"
proof -
  let ?pre = "take 2 (the (books tanakh_example))"
  let ?post = "drop 3 (the (books tanakh_example))"
  let ?subs = "the (sub_books the_twelve)"
  have 1: "books tanakh_example = Some (?pre @ the_twelve # ?post)"
    by (simp add: tanakh_example_def)
  have 2: "list_all flattenable (?pre @ the_twelve # ?post)"
    by (simp add: tanakh_example_def flattenable_def plain_entry_def the_twelve_def)
  have 3: "\<not> truthy (merge_with the_twelve)"
    by (simp add: the_twelve_def truthy_def)
  have 4: "sub_books the_twelve = Some ?subs"
    by (simp add: the_twelve_def)
  from sub_book_testament_and_name [OF 1 2 3 4]
  obtain us1 us us2 where h: "flatten_books ?pre = Inr us1" "flatten_books ?post = Inr us2"
    "get_all_books tanakh_example = Inr (us1 @ us @ us2)" "length us = length ?subs"
    "\<forall>k<length ?subs.
       unit_id (us ! k) = the (sub_id (?subs ! k)) \<and>
       unit_testament (us ! k) = get_default (testament the_twelve) ''OT'' \<and>
       unit_name (us ! k) = get_default (sub_name (?subs ! k)) (the (sub_id (?subs ! k)))"
    by blast
  from h(5) have "unit_id (us ! 0) = ''Hos'' \<and> unit_testament (us ! 0) = ''OT'' \<and>
     unit_name (us ! 0) = ''Hosea'' \<and>
     unit_id (us ! 1) = ''Obad'' \<and> unit_testament (us ! 1) = ''OT'' \<and>
     unit_name (us ! 1) = ''Obad''"
    by (simp add: the_twelve_def get_default_def)
  moreover from h(4) have "length us = 2" by (simp add: the_twelve_def)
  ultimately show ?thesis using h(1,2,3) by blast
qed

text \<open>
  The specification lets a sub-book override the testament of its composite entry; the
  code does not. In the example the sub-book \<^verbatim>\<open>Obad\<close> of the
  composite entry names the testament \<^verbatim>\<open>NT\<close>, and its unit has the testament
  \<^verbatim>\<open>OT\<close> of the composite entry.
\<close>

theorem sub_book_testament_counterexample:
  "sub_books the_twelve =
     Some [\<lparr>sub_id = Some ''Hos'', sub_name = Some ''Hosea'', sub_chapters = Some 14,
             sub_testament = None\<rparr>,
           \<lparr>sub_id = Some ''Obad'', sub_name = None, sub_chapters = None,
             sub_testament = Some ''NT''\<rparr>] \<and>
   testament the_twelve = Some ''OT'' \<and>
   get_all_books tanakh_example =
     Inr [\<lparr>unit_id = ''Gen'', unit_name = ''Genesis'', unit_chapters = 50,
            unit_testament = ''OT''\<rparr>,
          \<lparr>unit_id = ''Hos'', unit_name = ''Hosea'', unit_chapters = 14,
            unit_testament = ''OT''\<rparr>,
          \<lparr>unit_id = ''Obad'', unit_name = ''Obad'', unit_chapters = 1,
            unit_testament = ''OT''\<rparr>,
          \<lparr>unit_id = ''Ps'', unit_name = ''Psalms'', unit_chapters = 150,
            unit_testament = ''OT''\<rparr>]"
  by (simp add: tanakh_example_def the_twelve_def plain_entry_def get_all_books_def
      flatten_book_def sub_unit_def get_default_def truthy_def)

lemma sub_units_emitted:
  "sub_units b subs = Inr us \<Longrightarrow>
   map (\<lambda>u. (unit_id u, unit_chapters u)) us =
     map (\<lambda>s. (the (sub_id s), get_default (sub_chapters s) 1)) subs"
  by (induction subs arbitrary: us) (auto simp: sub_unit_def split: option.splits sum.splits)

lemma flatten_book_emitted:
  assumes "flattenable b" and "merge_with b \<noteq> Some []" and "flatten_book b = Inr us"
  shows "map (\<lambda>u. (unit_id u, unit_chapters u)) us = emitted b"
proof (cases "merge_with b")
  case None
  then have nt: "\<not> truthy (merge_with b)" by (simp add: truthy_def)
  show ?thesis
  proof (cases "sub_books b")
    case (Some subs)
    with nt assms(3) have "sub_units b subs = Inr us" by (simp add: flatten_book_def)
    then show ?thesis using None Some by (simp add: emitted_def sub_units_emitted)
  next
    case no_subs: None
    with nt assms(1,3) None show ?thesis
      by (auto simp: flatten_book_def emitted_def flattenable_def split: option.splits)
  qed
next
  case (Some m)
  with assms(2) have "truthy (merge_with b)" by (simp add: truthy_def)
  with assms(3) Some show ?thesis by (simp add: flatten_book_def emitted_def)
qed

text \<open>
  C3. When the entries of a canon can be flattened and no \<^verbatim>\<open>merge_with\<close> is the
  empty string, the flattened list is, entry by entry: nothing for an entry that has
  \<^verbatim>\<open>merge_with\<close>, the sub-books for a composite entry, nothing for another entry
  without \<^verbatim>\<open>chapters\<close>, and the entry with its chapter count otherwise.
\<close>

theorem flatten_skips_merged_and_chapterless:
  assumes "books v = Some bs"
    and "list_all flattenable bs"
    and "list_all (\<lambda>b. merge_with b \<noteq> Some []) bs"
  shows "\<exists>us. get_all_books v = Inr us \<and>
           map (\<lambda>u. (unit_id u, unit_chapters u)) us = concat (map emitted bs)"
proof -
  have "\<exists>us. flatten_books bs = Inr us \<and>
          map (\<lambda>u. (unit_id u, unit_chapters u)) us = concat (map emitted bs)"
    using assms(2,3)
  proof (induction bs)
    case Nil
    then show ?case by simp
  next
    case (Cons b bs)
    then obtain vs where vs: "flatten_books bs = Inr vs"
      "map (\<lambda>u. (unit_id u, unit_chapters u)) vs = concat (map emitted bs)"
      by auto
    from Cons.prems have b: "flattenable b" "merge_with b \<noteq> Some []" by simp_all
    then obtain us where us: "flatten_book b = Inr us"
      using flatten_book_total by blast
    have "map (\<lambda>u. (unit_id u, unit_chapters u)) us = emitted b"
      using b us by (rule flatten_book_emitted)
    with us vs show ?case by simp
  qed
  with assms(1) show ?thesis by (simp add: get_all_books_def get_default_def)
qed

theorem flatten_skips_merged_and_chapterless_witness:
  "\<exists>us. get_all_books tanakh_example = Inr us \<and>
     map (\<lambda>u. (unit_id u, unit_chapters u)) us =
       [(''Gen'', 50), (''Hos'', 14), (''Obad'', 1), (''Ps'', 150)]"
proof -
  let ?bs = "the (books tanakh_example)"
  have 1: "books tanakh_example = Some ?bs"
    by (simp add: tanakh_example_def)
  have 2: "list_all flattenable ?bs"
    by (simp add: tanakh_example_def flattenable_def plain_entry_def the_twelve_def)
  have 3: "list_all (\<lambda>b. merge_with b \<noteq> Some []) ?bs"
    by (simp add: tanakh_example_def plain_entry_def the_twelve_def)
  have "concat (map emitted ?bs) = [(''Gen'', 50), (''Hos'', 14), (''Obad'', 1), (''Ps'', 150)]"
    by (simp add: tanakh_example_def plain_entry_def the_twelve_def emitted_def get_default_def)
  with flatten_skips_merged_and_chapterless [OF 1 2 3] show ?thesis by simp
qed

section \<open>The Protestant canon: proofs\<close>

lemma flatten_books_rows: "flatten_books (map book_of_row rows) = Inr (map unit_of_row rows)"
  by (induction rows)
    (auto simp: flatten_book_def book_of_row_def unit_of_row_def truthy_def get_default_def)

text \<open>
  C8. Loading the Protestant canon and flattening it gives the 66 rows of the table in
  their order; the first unit is Genesis (\<^verbatim>\<open>Gen\<close>, 50 chapters) and the last is
  Revelation (\<^verbatim>\<open>Rev\<close>, 22 chapters).
\<close>

theorem protestant_has_66_books:
  "load_versification (Suc depth) versifications ''protestant'' = Inr protestant \<and>
   get_all_books protestant = Inr (map unit_of_row BOOKS) \<and>
   length (map unit_of_row BOOKS) = 66 \<and>
   hd (map unit_of_row BOOKS) =
     \<lparr>unit_id = ''Gen'', unit_name = ''Genesis'', unit_chapters = 50, unit_testament = ''OT''\<rparr> \<and>
   last (map unit_of_row BOOKS) =
     \<lparr>unit_id = ''Rev'', unit_name = ''Revelation'', unit_chapters = 22,
      unit_testament = ''NT''\<rparr>"
proof -
  have "load_versification (Suc depth) versifications ''protestant'' = Inr protestant"
    by (simp add: versifications_def protestant_def)
  moreover have "get_all_books protestant = Inr (map unit_of_row BOOKS)"
    by (simp add: get_all_books_def protestant_def get_default_def flatten_books_rows)
  moreover have "length (map unit_of_row BOOKS) = 66"
    by (simp add: BOOKS_def)
  moreover have "hd (map unit_of_row BOOKS) =
     \<lparr>unit_id = ''Gen'', unit_name = ''Genesis'', unit_chapters = 50, unit_testament = ''OT''\<rparr>"
    by (simp add: BOOKS_def unit_of_row_def)
  moreover have "last (map unit_of_row BOOKS) =
     \<lparr>unit_id = ''Rev'', unit_name = ''Revelation'', unit_chapters = 22,
      unit_testament = ''NT''\<rparr>"
    by (simp add: BOOKS_def unit_of_row_def)
  ultimately show ?thesis by blast
qed

section \<open>Loading: proofs\<close>

lemma find_id_spec:
  "list_all (\<lambda>b. entry_id b \<noteq> None) bs \<Longrightarrow>
   find_id a i bs = Inr (case spec_locate a bs of None \<Rightarrow> None | Some k \<Rightarrow> Some (i + k))"
proof (induction bs arbitrary: i)
  case Nil
  then show ?case by (simp add: spec_locate_def)
next
  case (Cons b bs)
  then obtain x where x: "entry_id b = Some x" by auto
  show ?case
  proof (cases "x = a")
    case True
    with x show ?thesis by (simp add: spec_locate_def)
  next
    case False
    from Cons have "find_id a (Suc i) bs =
        Inr (case spec_locate a bs of None \<Rightarrow> None | Some k \<Rightarrow> Some (Suc i + k))"
      by simp
    with x False show ?thesis by (simp add: spec_locate_def)
  qed
qed

lemma has_id_present: "list_all has_id bs \<Longrightarrow> list_all (\<lambda>b. entry_id b \<noteq> None) bs"
  by (induction bs) (auto simp: has_id_def split: option.splits)

lemma spec_locate_empty: "list_all has_id bs \<Longrightarrow> spec_locate [] bs = None"
  by (induction bs) (auto simp: spec_locate_def has_id_def split: option.splits)

lemma insert_book_spec:
  assumes "list_all has_id bs"
  shows "insert_book bs add_book = Inr (spec_splice bs add_book)"
proof (cases "insert_after add_book")
  case None
  then show ?thesis by (simp add: insert_book_def spec_splice_def truthy_def)
next
  case (Some a)
  show ?thesis
  proof (cases "a = []")
    case True
    with Some assms show ?thesis
      by (simp add: insert_book_def spec_splice_def truthy_def spec_locate_empty)
  next
    case False
    have "find_id a 0 bs =
        Inr (case spec_locate a bs of None \<Rightarrow> None | Some k \<Rightarrow> Some (0 + k))"
      using assms has_id_present find_id_spec by blast
    with Some False show ?thesis
      by (auto simp: insert_book_def spec_splice_def truthy_def list_insert_def
          split: option.splits)
  qed
qed

lemma set_spec_splice: "set (spec_splice bs add_book) = insert add_book (set bs)"
proof -
  have "set (take k bs @ add_book # drop k bs) = insert add_book (set bs)" for k
  proof -
    have "set (take k bs @ add_book # drop k bs) = insert add_book (set (take k bs @ drop k bs))"
      by (simp del: append_take_drop_id)
    then show ?thesis by simp
  qed
  then show ?thesis by (auto simp: spec_splice_def split: option.splits)
qed

lemma merge_books_spec:
  "list_all has_id bs \<Longrightarrow> list_all has_id adds \<Longrightarrow>
   merge_books bs adds = Inr (spec_merge bs adds)"
proof (induction adds arbitrary: bs)
  case Nil
  then show ?case by (simp add: spec_merge_def)
next
  case (Cons a adds)
  have "list_all has_id (spec_splice bs a)"
    using Cons.prems by (simp add: list_all_iff set_spec_splice)
  with Cons have "merge_books (spec_splice bs a) adds = Inr (spec_merge (spec_splice bs a) adds)"
    by simp
  with Cons.prems show ?case by (simp add: insert_book_spec spec_merge_def)
qed

text \<open>
  C1. When a document declares \<^verbatim>\<open>extends\<close>, its parent loads, and every entry of the
  parent's resolved books and of the document's additional books has an id, loading
  returns the document with its books replaced by the merge of the specification: each
  additional entry in turn right after the entry whose id is its \<^verbatim>\<open>insert_after\<close>, or
  at the end when it has no \<^verbatim>\<open>insert_after\<close> or no entry has that id. The result is a
  value, not an error.
\<close>

theorem load_merges_additional_books:
  assumes "files name = Some data"
    and "extends data = Some parent_name"
    and "load_versification depth files parent_name = Inr parent"
    and "list_all has_id (get_default (books parent) [])"
    and "list_all has_id (get_default (additional_books data) [])"
  shows "load_versification (Suc depth) files name =
           Inr (data\<lparr>books :=
                  Some (spec_merge (get_default (books parent) [])
                          (get_default (additional_books data) []))\<rparr>)"
  using assms by (simp add: merge_books_spec)

theorem load_merges_additional_books_witness:
  "load_versification 2 example_files ''child'' =
     Inr (example_child\<lparr>books := Some
       [plain_entry ''Ezra'' ''Ezra'' 10 ''OT'',
        plain_entry ''Neh'' ''Nehemiah'' 13 ''OT'',
        (plain_entry ''Jdt'' ''Judith'' 16 ''DC'')\<lparr>insert_after := Some ''Neh''\<rparr>,
        (plain_entry ''Tob'' ''Tobit'' 14 ''DC'')\<lparr>insert_after := Some ''Neh''\<rparr>,
        plain_entry ''Esth'' ''Esther'' 10 ''OT'',
        (plain_entry ''EsthGr'' ''Additions to Esther'' 6 ''DC'')
           \<lparr>insert_after := Some ''Esth'', merge_with := Some ''Esth''\<rparr>,
        plain_entry ''Mal'' ''Malachi'' 4 ''OT'',
        (plain_entry ''1En'' ''Enoch'' 108 ''DC'')\<lparr>insert_after := Some ''Jub''\<rparr>,
        plain_entry ''Odes'' ''Odes'' 14 ''DC'']\<rparr>)"
proof -
  have 1: "example_files ''child'' = Some example_child"
    by (simp add: example_files_def)
  have 2: "extends example_child = Some ''parent''"
    by (simp add: example_child_def)
  have 3: "load_versification (Suc 0) example_files ''parent'' = Inr example_parent"
    by (simp add: example_files_def example_parent_def)
  have 4: "list_all has_id (get_default (books example_parent) [])"
    by (simp add: example_parent_def get_default_def has_id_def plain_entry_def)
  have 5: "list_all has_id (get_default (additional_books example_child) [])"
    by (simp add: example_child_def get_default_def has_id_def plain_entry_def)
  have "load_versification 2 example_files ''child'' =
     Inr (example_child\<lparr>books :=
            Some (spec_merge (get_default (books example_parent) [])
                    (get_default (additional_books example_child) []))\<rparr>)"
    unfolding numeral_2_eq_2 by (rule load_merges_additional_books [OF 1 2 3 4 5])
  moreover have "spec_merge (get_default (books example_parent) [])
                    (get_default (additional_books example_child) []) =
       [plain_entry ''Ezra'' ''Ezra'' 10 ''OT'',
        plain_entry ''Neh'' ''Nehemiah'' 13 ''OT'',
        (plain_entry ''Jdt'' ''Judith'' 16 ''DC'')\<lparr>insert_after := Some ''Neh''\<rparr>,
        (plain_entry ''Tob'' ''Tobit'' 14 ''DC'')\<lparr>insert_after := Some ''Neh''\<rparr>,
        plain_entry ''Esth'' ''Esther'' 10 ''OT'',
        (plain_entry ''EsthGr'' ''Additions to Esther'' 6 ''DC'')
           \<lparr>insert_after := Some ''Esth'', merge_with := Some ''Esth''\<rparr>,
        plain_entry ''Mal'' ''Malachi'' 4 ''OT'',
        (plain_entry ''1En'' ''Enoch'' 108 ''DC'')\<lparr>insert_after := Some ''Jub''\<rparr>,
        plain_entry ''Odes'' ''Odes'' 14 ''DC'']"
    by (simp add: example_parent_def example_child_def get_default_def spec_merge_def
        spec_splice_def spec_locate_def plain_entry_def)
  ultimately show ?thesis by simp
qed

section \<open>Entries with the same anchor\<close>

lemma subseq_list_insert: "subseq xs bs \<Longrightarrow> subseq xs (list_insert p x bs)"
proof -
  have "subseq (drop p bs) (x # drop p bs)"
    using subseq_drop_many [of "drop p bs" "drop p bs" "[x]"] by simp
  then have "subseq (take p bs @ drop p bs) (take p bs @ x # drop p bs)"
    by (simp only: subseq_append')
  then have "subseq bs (list_insert p x bs)" by (simp add: list_insert_def)
  then show "subseq xs bs \<Longrightarrow> subseq xs (list_insert p x bs)"
    using subseq_order.trans by blast
qed

lemma set_list_insert: "set (list_insert p x bs) = insert x (set bs)"
proof -
  have "set (take p bs @ x # drop p bs) = insert x (set (take p bs @ drop p bs))"
    by (simp del: append_take_drop_id)
  then show ?thesis by (simp add: list_insert_def)
qed

lemma insert_book_position:
  assumes "list_all (\<lambda>b. entry_id b \<noteq> None) bs"
  shows "\<exists>p. insert_book bs add_book = Inr (list_insert p add_book bs)"
proof -
  have app: "bs @ [add_book] = list_insert (length bs) add_book bs"
    by (simp add: list_insert_def)
  show ?thesis
  proof (cases "truthy (insert_after add_book)")
    case False
    then have "insert_book bs add_book = Inr (bs @ [add_book])"
      by (simp add: insert_book_def)
    with app show ?thesis by metis
  next
    case True
    let ?a = "the (insert_after add_book)"
    have f: "find_id ?a 0 bs =
        Inr (case spec_locate ?a bs of None \<Rightarrow> None | Some k \<Rightarrow> Some (0 + k))"
      using assms by (rule find_id_spec)
    show ?thesis
    proof (cases "spec_locate ?a bs")
      case None
      with f True have "insert_book bs add_book = Inr (bs @ [add_book])"
        by (simp add: insert_book_def)
      with app show ?thesis by metis
    next
      case (Some k)
      with f True have "insert_book bs add_book = Inr (list_insert (k + 1) add_book bs)"
        by (simp add: insert_book_def)
      then show ?thesis by blast
    qed
  qed
qed

lemma insert_book_anchor:
  assumes ids: "list_all (\<lambda>b. entry_id b \<noteq> None) bs"
    and after: "insert_after add_book = Some a" "a \<noteq> []"
    and present: "Some a \<in> entry_id ` set bs"
  shows "\<exists>pre anchor post.
           bs = pre @ anchor # post \<and> entry_id anchor = Some a \<and>
           (\<forall>b\<in>set pre. entry_id b \<noteq> Some a) \<and>
           insert_book bs add_book = Inr (pre @ anchor # add_book # post)"
proof -
  let ?P = "\<lambda>b. entry_id b \<noteq> Some a"
  let ?pre = "takeWhile ?P bs"
  from present have "\<exists>b\<in>set bs. \<not> ?P b" by auto
  then have ne: "dropWhile ?P bs \<noteq> []" by (simp add: dropWhile_eq_Nil_conv)
  then obtain anchor post where dw: "dropWhile ?P bs = anchor # post"
    by (cases "dropWhile ?P bs") auto
  then have anchor: "entry_id anchor = Some a"
    using hd_dropWhile [OF ne] by simp
  have bs: "bs = ?pre @ anchor # post"
    using dw takeWhile_dropWhile_id [of ?P bs] by simp
  have pre: "\<forall>b\<in>set ?pre. entry_id b \<noteq> Some a"
    using set_takeWhileD by fastforce
  have loc: "spec_locate a bs = Some (length ?pre)"
    using present by (simp add: spec_locate_def)
  have "find_id a 0 bs =
      Inr (case spec_locate a bs of None \<Rightarrow> None | Some k \<Rightarrow> Some (0 + k))"
    using ids by (rule find_id_spec)
  with loc after have "insert_book bs add_book = Inr (list_insert (length ?pre + 1) add_book bs)"
    by (simp add: insert_book_def truthy_def)
  moreover have "list_insert (length ?pre + 1) add_book bs = ?pre @ anchor # add_book # post"
  proof -
    have "list_insert (length ?pre + 1) add_book (?pre @ anchor # post) =
        ?pre @ anchor # add_book # post"
      by (simp add: list_insert_def)
    with bs show ?thesis by simp
  qed
  ultimately show ?thesis using bs anchor pre by metis
qed

lemma subseq_skip_prefix:
  "subseq (x # xs) (ys @ zs) \<Longrightarrow> x \<notin> set ys \<Longrightarrow> subseq (x # xs) zs"
  by (induction ys) (auto split: if_splits)

lemma merge_books_append:
  "merge_books bs (xs @ ys) =
     (case merge_books bs xs of Inl e \<Rightarrow> Inl e | Inr bs' \<Rightarrow> merge_books bs' ys)"
  by (induction xs arbitrary: bs) (auto split: sum.splits)

lemma merge_books_subseq:
  "list_all (\<lambda>b. entry_id b \<noteq> None) bs \<Longrightarrow> list_all (\<lambda>b. entry_id b \<noteq> None) adds \<Longrightarrow>
   subseq xs bs \<Longrightarrow>
   \<exists>m. merge_books bs adds = Inr m \<and> subseq xs m \<and> set m = set bs \<union> set adds \<and>
     list_all (\<lambda>b. entry_id b \<noteq> None) m"
proof (induction adds arbitrary: bs)
  case Nil
  then show ?case by simp
next
  case (Cons a adds)
  from Cons.prems(2) have a: "entry_id a \<noteq> None"
    and adds: "list_all (\<lambda>b. entry_id b \<noteq> None) adds"
    by simp_all
  obtain p where p: "insert_book bs a = Inr (list_insert p a bs)"
    using insert_book_position [OF Cons.prems(1)] by blast
  let ?bs = "list_insert p a bs"
  have "list_all (\<lambda>b. entry_id b \<noteq> None) ?bs"
    using Cons.prems(1) a by (simp add: list_all_iff set_list_insert)
  moreover have "subseq xs ?bs"
    using Cons.prems(3) by (rule subseq_list_insert)
  ultimately obtain m where m: "merge_books ?bs adds = Inr m" "subseq xs m"
    "set m = set ?bs \<union> set adds" "list_all (\<lambda>b. entry_id b \<noteq> None) m"
    using Cons.IH [OF _ adds] by blast
  from m(3) have "set m = set bs \<union> set (a # adds)"
    by (simp add: set_list_insert)
  with p m(1,2,4) show ?case by simp
qed

lemma subseq_head_member: "subseq (x # xs) ys \<Longrightarrow> x \<in> set ys"
  by (induction ys) (auto split: if_splits)

lemma same_anchor_order:
  assumes ids: "list_all (\<lambda>b. entry_id b \<noteq> None) (bs @ xs @ A # ys @ B # zs)"
    and after: "insert_after A = Some a" "insert_after B = Some a" "a \<noteq> []"
    and present: "Some a \<in> entry_id ` (set bs \<union> set xs)"
  shows "\<exists>merged anchor.
           merge_books bs (xs @ A # ys @ B # zs) = Inr merged \<and>
           entry_id anchor = Some a \<and> subseq [anchor, B, A] merged"
proof -
  let ?ok = "list_all (\<lambda>b. entry_id b \<noteq> None)"
  from ids have ok: "?ok bs" "?ok xs" "entry_id A \<noteq> None" "?ok ys" "entry_id B \<noteq> None" "?ok zs"
    by simp_all
  have "subseq [] bs" by simp
  from merge_books_subseq [OF ok(1) ok(2) this]
  obtain m1 where m1: "merge_books bs xs = Inr m1" "set m1 = set bs \<union> set xs" "?ok m1"
    by blast
  from present m1(2) have "Some a \<in> entry_id ` set m1" by simp
  from insert_book_anchor [OF m1(3) after(1) after(3) this]
  obtain pre anchor post where s2: "m1 = pre @ anchor # post" "entry_id anchor = Some a"
    "insert_book m1 A = Inr (pre @ anchor # A # post)"
    by blast
  let ?m2 = "pre @ anchor # A # post"
  from m1(3) s2(1) have "?ok (pre @ anchor # post)" by simp
  with ok(3) have ok2: "?ok ?m2" by simp
  have "subseq [anchor, A] ?m2" by (simp add: subseq_drop_many)
  from merge_books_subseq [OF ok2 ok(4) this]
  obtain m3 where m3: "merge_books ?m2 ys = Inr m3" "subseq [anchor, A] m3" "?ok m3"
    by blast
  from m3(2) have "anchor \<in> set m3" by (rule subseq_head_member)
  with s2(2) have "Some a \<in> entry_id ` set m3" by force
  from insert_book_anchor [OF m3(3) after(2) after(3) this]
  obtain pre' anchor' post' where s4: "m3 = pre' @ anchor' # post'" "entry_id anchor' = Some a"
    "\<forall>b\<in>set pre'. entry_id b \<noteq> Some a"
    "insert_book m3 B = Inr (pre' @ anchor' # B # post')"
    by blast
  let ?m4 = "pre' @ anchor' # B # post'"
  from s4(3) s2(2) have "anchor \<notin> set pre'" by blast
  moreover from m3(2) s4(1) have "subseq [anchor, A] (pre' @ anchor' # post')" by simp
  ultimately have "subseq [anchor, A] (anchor' # post')"
    by (rule subseq_skip_prefix [rotated])
  then have "subseq [A] post'"
    by (cases "anchor = anchor'") (simp_all add: subseq_Cons')
  then have "subseq [anchor', B, A] (anchor' # B # post')" by simp
  then have sub4: "subseq [anchor', B, A] ?m4" by (rule subseq_drop_many)
  from m3(3) s4(1) have "?ok (pre' @ anchor' # post')" by simp
  with ok(5) have ok4: "?ok ?m4" by simp
  from merge_books_subseq [OF ok4 ok(6) sub4]
  obtain m5 where m5: "merge_books ?m4 zs = Inr m5" "subseq [anchor', B, A] m5"
    by blast
  have "merge_books bs (xs @ A # ys @ B # zs) = Inr m5"
    using m1(1) s2(3) m3(1) s4(4) m5(1) by (simp add: merge_books_append)
  with s4(2) m5(2) show ?thesis by blast
qed

lemma same_anchor_indices:
  assumes "list_all (\<lambda>b. entry_id b \<noteq> None) (bs @ adds)"
    and "i < j" and "j < length adds"
    and "insert_after (adds ! i) = Some a" and "insert_after (adds ! j) = Some a"
    and "a \<noteq> []"
    and "Some a \<in> entry_id ` (set bs \<union> set (take i adds))"
  shows "\<exists>merged anchor.
           merge_books bs adds = Inr merged \<and> entry_id anchor = Some a \<and>
           subseq [anchor, adds ! j, adds ! i] merged"
proof -
  let ?xs = "take i adds"
  let ?ys = "take (j - Suc i) (drop (Suc i) adds)"
  let ?zs = "drop (Suc j) adds"
  from assms(2,3) have i: "i < length adds" by simp
  have 1: "adds = ?xs @ adds ! i # drop (Suc i) adds"
    using i by (simp add: id_take_nth_drop)
  from assms(2,3) have k: "j - Suc i < length (drop (Suc i) adds)" by simp
  have "drop (Suc i) adds =
      ?ys @ drop (Suc i) adds ! (j - Suc i) # drop (Suc (j - Suc i)) (drop (Suc i) adds)"
    using k by (rule id_take_nth_drop)
  moreover have "drop (Suc i) adds ! (j - Suc i) = adds ! j"
    using assms(2,3) by simp
  moreover have "drop (Suc (j - Suc i)) (drop (Suc i) adds) = ?zs"
    using assms(2) by simp
  ultimately have 2: "drop (Suc i) adds = ?ys @ adds ! j # ?zs" by simp
  from 1 2 have adds: "adds = ?xs @ adds ! i # ?ys @ adds ! j # ?zs" by simp
  have ids: "list_all (\<lambda>b. entry_id b \<noteq> None) (bs @ ?xs @ adds ! i # ?ys @ adds ! j # ?zs)"
    using assms(1) by (subst adds [symmetric])
  from same_anchor_order [OF ids assms(4) assms(5) assms(6) assms(7)] adds
  show ?thesis by simp
qed

lemma same_anchor_step:
  assumes ids: "list_all (\<lambda>b. entry_id b \<noteq> None) (bs @ adds)"
    and k: "k < length adds"
    and after: "insert_after (adds ! k) = Some a" "a \<noteq> []"
    and present: "Some a \<in> entry_id ` (set bs \<union> set (take k adds))"
  shows "\<exists>pre anchor post.
           merge_books bs (take k adds) = Inr (pre @ anchor # post) \<and>
           entry_id anchor = Some a \<and> (\<forall>b\<in>set pre. entry_id b \<noteq> Some a) \<and>
           merge_books bs (take (Suc k) adds) = Inr (pre @ anchor # adds ! k # post)"
proof -
  let ?ok = "list_all (\<lambda>b. entry_id b \<noteq> None)"
  from ids have "?ok bs" "?ok adds" by simp_all
  moreover from \<open>?ok adds\<close> have "?ok (take k adds)"
    by (auto simp: list_all_iff dest: in_set_takeD)
  moreover have "subseq [] bs" by simp
  ultimately obtain m where m: "merge_books bs (take k adds) = Inr m"
    "set m = set bs \<union> set (take k adds)" "?ok m"
    using merge_books_subseq by blast
  from present m(2) have "Some a \<in> entry_id ` set m" by simp
  from insert_book_anchor [OF m(3) after this]
  obtain pre anchor post where s: "m = pre @ anchor # post" "entry_id anchor = Some a"
    "\<forall>b\<in>set pre. entry_id b \<noteq> Some a"
    "insert_book m (adds ! k) = Inr (pre @ anchor # adds ! k # post)"
    by blast
  from k have "take (Suc k) adds = take k adds @ [adds ! k]"
    by (rule take_Suc_conv_app_nth)
  with m(1) s(4) have "merge_books bs (take (Suc k) adds) = Inr (pre @ anchor # adds ! k # post)"
    by (simp add: merge_books_append)
  with m(1) s(1,2,3) show ?thesis by blast
qed

text \<open>
  C2. Let two additional entries, the one at index \<open>i\<close> and a later one at index \<open>j\<close>,
  name the same anchor in \<^verbatim>\<open>insert_after\<close>, and let an entry with that id be among
  the parent's books or the additional entries before \<open>i\<close>. When every entry has an id,
  each of the two is put, in its turn, right after the first entry that has the anchor's
  id, and the merge returns a list in which an entry with the anchor's id comes first,
  then the later entry, then the earlier one: the order of the two is the reverse of
  the declared order.
\<close>

theorem same_anchor_reversed:
  assumes "list_all (\<lambda>b. entry_id b \<noteq> None) (bs @ adds)"
    and "i < j" and "j < length adds"
    and "insert_after (adds ! i) = Some a" and "insert_after (adds ! j) = Some a"
    and "a \<noteq> []"
    and "Some a \<in> entry_id ` (set bs \<union> set (take i adds))"
  shows "(\<exists>merged anchor.
            merge_books bs adds = Inr merged \<and> entry_id anchor = Some a \<and>
            subseq [anchor, adds ! j, adds ! i] merged) \<and>
         (\<exists>pre anchor post.
            merge_books bs (take i adds) = Inr (pre @ anchor # post) \<and>
            entry_id anchor = Some a \<and> (\<forall>b\<in>set pre. entry_id b \<noteq> Some a) \<and>
            merge_books bs (take (Suc i) adds) = Inr (pre @ anchor # adds ! i # post)) \<and>
         (\<exists>pre anchor post.
            merge_books bs (take j adds) = Inr (pre @ anchor # post) \<and>
            entry_id anchor = Some a \<and> (\<forall>b\<in>set pre. entry_id b \<noteq> Some a) \<and>
            merge_books bs (take (Suc j) adds) = Inr (pre @ anchor # adds ! j # post))"
proof (intro conjI)
  show "\<exists>merged anchor.
          merge_books bs adds = Inr merged \<and> entry_id anchor = Some a \<and>
          subseq [anchor, adds ! j, adds ! i] merged"
    using assms by (rule same_anchor_indices)
next
  from assms(2,3) have "i < length adds" by simp
  then show "\<exists>pre anchor post.
          merge_books bs (take i adds) = Inr (pre @ anchor # post) \<and>
          entry_id anchor = Some a \<and> (\<forall>b\<in>set pre. entry_id b \<noteq> Some a) \<and>
          merge_books bs (take (Suc i) adds) = Inr (pre @ anchor # adds ! i # post)"
    using assms(1,4,6,7) by (intro same_anchor_step)
next
  from assms(2) have "set (take i adds) \<subseteq> set (take j adds)"
    by (intro set_take_subset_set_take) simp
  with assms(7) have "Some a \<in> entry_id ` (set bs \<union> set (take j adds))" by blast
  then show "\<exists>pre anchor post.
          merge_books bs (take j adds) = Inr (pre @ anchor # post) \<and>
          entry_id anchor = Some a \<and> (\<forall>b\<in>set pre. entry_id b \<noteq> Some a) \<and>
          merge_books bs (take (Suc j) adds) = Inr (pre @ anchor # adds ! j # post)"
    using assms(1,3,5,6) by (intro same_anchor_step)
qed

theorem same_anchor_reversed_witness:
  "\<exists>merged anchor.
     merge_books (get_default (books example_parent) [])
       (get_default (additional_books example_child) []) = Inr merged \<and>
     entry_id anchor = Some ''Neh'' \<and>
     subseq [anchor, (plain_entry ''Jdt'' ''Judith'' 16 ''DC'')\<lparr>insert_after := Some ''Neh''\<rparr>,
             (plain_entry ''Tob'' ''Tobit'' 14 ''DC'')\<lparr>insert_after := Some ''Neh''\<rparr>] merged"
proof -
  let ?bs = "get_default (books example_parent) []"
  let ?adds = "get_default (additional_books example_child) []"
  have 1: "list_all (\<lambda>b. entry_id b \<noteq> None) (?bs @ ?adds)"
    by (simp add: example_parent_def example_child_def get_default_def plain_entry_def)
  have 2: "(0::nat) < 1" by simp
  have 3: "1 < length ?adds"
    by (simp add: example_child_def get_default_def)
  have 4: "insert_after (?adds ! 0) = Some ''Neh''"
    by (simp add: example_child_def get_default_def plain_entry_def)
  have 5: "insert_after (?adds ! 1) = Some ''Neh''"
    by (simp add: example_child_def get_default_def plain_entry_def)
  have 6: "''Neh'' \<noteq> []" by simp
  have 7: "Some ''Neh'' \<in> entry_id ` (set ?bs \<union> set (take 0 ?adds))"
    by (simp add: example_parent_def get_default_def plain_entry_def)
  have "?adds ! 0 = (plain_entry ''Tob'' ''Tobit'' 14 ''DC'')\<lparr>insert_after := Some ''Neh''\<rparr>"
    "?adds ! 1 = (plain_entry ''Jdt'' ''Judith'' 16 ''DC'')\<lparr>insert_after := Some ''Neh''\<rparr>"
    by (simp_all add: example_child_def get_default_def)
  with conjunct1 [OF same_anchor_reversed [OF 1 2 3 4 5 6 7]] show ?thesis by simp
qed

section \<open>Missing and existing documents\<close>




section \<open>Verses have text\<close>

lemma split_words_no_empty_word: "x \<in> set (split_words w s) \<Longrightarrow> x \<noteq> []"
  by (induction s arbitrary: w) (auto split: if_splits)

lemma split_words_some_word:
  "w \<noteq> [] \<or> (\<exists>c\<in>set s. \<not> is_space c) \<Longrightarrow> split_words w s \<noteq> []"
  by (induction s arbitrary: w) auto

lemma join_not_empty: "ws \<noteq> [] \<Longrightarrow> \<forall>x\<in>set ws. x \<noteq> [] \<Longrightarrow> join sep ws \<noteq> []"
  by (induction sep ws rule: join.induct) auto

lemma strip_ends_in_text:
  assumes "strip s \<noteq> []"
  shows "\<not> is_space (last (strip s))"
proof -
  let ?r = "dropWhile is_space (rev (dropWhile is_space s))"
  from assms have ne: "?r \<noteq> []" by (simp add: strip_def)
  then have "\<not> is_space (hd ?r)" by (rule hd_dropWhile)
  moreover have "last (strip s) = hd ?r"
    using ne by (simp add: strip_def last_rev)
  ultimately show ?thesis by simp
qed

lemma normalized_text_not_empty:
  assumes "strip s \<noteq> []"
  shows "join '' '' (py_split (strip s)) \<noteq> []"
proof -
  have "last (strip s) \<in> set (strip s)" using assms by simp
  with strip_ends_in_text [OF assms] have "\<exists>c\<in>set (strip s). \<not> is_space c" by blast
  then have "py_split (strip s) \<noteq> []"
    by (simp add: py_split_def split_words_some_word)
  moreover have "\<forall>x\<in>set (py_split (strip s)). x \<noteq> []"
    by (simp add: py_split_def split_words_no_empty_word)
  ultimately show ?thesis by (rule join_not_empty)
qed

lemma verse_of_text: "verse_of lim r t = Inr (Some v) \<Longrightarrow> verse_text v \<noteq> []"
  using normalized_text_not_empty [of t]
  by (auto simp: verse_of_def Let_def split: option.splits sum.splits if_splits)

lemma verse_of_bibles_text: "verse_of_bibles lim r t = Inr (Some v) \<Longrightarrow> verse_text v \<noteq> []"
  using normalized_text_not_empty [of t]
  by (auto simp: verse_of_bibles_def Let_def split: option.splits sum.splits if_splits)

lemma verses_of_text:
  "(\<And>r t v. body r t = Inr (Some v) \<Longrightarrow> verse_text v \<noteq> []) \<Longrightarrow>
   verses_of body parts = Inr verses \<Longrightarrow> \<forall>v\<in>set verses. verse_text v \<noteq> []"
proof (induction body parts arbitrary: verses rule: verses_of.induct)
  case (1 body part_ref part_text rest)
  from "1.prems"(2) obtain v vs where v: "body part_ref part_text = Inr v"
    and vs: "verses_of body rest = Inr vs"
    and verses: "verses = (case v of None \<Rightarrow> vs | Some x \<Rightarrow> x # vs)"
    by (auto split: sum.splits)
  from "1.IH" [OF v "1.prems"(1) vs] have rest: "\<forall>x\<in>set vs. verse_text x \<noteq> []" by simp
  show ?case
  proof (cases v)
    case None
    with verses rest show ?thesis by simp
  next
    case (Some x)
    with v have "verse_text x \<noteq> []" using "1.prems"(1) by blast
    with Some verses rest show ?thesis by simp
  qed
qed simp_all

lemma py_int_no_limit: "py_int 0 ds = Inr (foldl (\<lambda>n c. 10 * n + digit_value c) 0 ds)"
  by (simp add: py_int_def)

lemma verse_of_no_limit: "\<exists>v. verse_of 0 r t = Inr v"
  by (simp add: verse_of_def Let_def py_int_no_limit split: option.splits)

lemma verse_of_bibles_no_limit: "\<exists>v. verse_of_bibles 0 r t = Inr v"
  by (simp add: verse_of_bibles_def Let_def py_int_no_limit split: option.splits)

lemma verses_of_total:
  "(\<And>r t. \<exists>v. body r t = Inr v) \<Longrightarrow> \<exists>verses. verses_of body parts = Inr verses"
proof (induction body parts rule: verses_of.induct)
  case (1 body part_ref part_text rest)
  from "1.prems" obtain v where v: "body part_ref part_text = Inr v" by blast
  from "1.IH" [OF v "1.prems"] obtain vs where "verses_of body rest = Inr vs" by blast
  with v show ?case by simp
qed simp_all

text \<open>
  C9. Every verse that either parser returns has a text that is not empty, whatever the
  input. A body that is empty once trimmed gives no verse in either parser. Where the
  interpreter puts no limit on the digits of a verse number, both parsers return a list
  of verses for every input.
\<close>

theorem emitted_verses_have_text:
  "(parse_diatheke_output lim output = Inr verses \<longrightarrow> (\<forall>v\<in>set verses. verse_text v \<noteq> [])) \<and>
   (parse_diatheke_output_bibles lim output = Inr verses \<longrightarrow>
      (\<forall>v\<in>set verses. verse_text v \<noteq> [])) \<and>
   (strip body = [] \<longrightarrow>
      verse_of lim ref body = Inr None \<and> verse_of_bibles lim ref body = Inr None) \<and>
   (\<exists>vs. parse_diatheke_output 0 output = Inr vs) \<and>
   (\<exists>vs. parse_diatheke_output_bibles 0 output = Inr vs)"
proof (intro conjI impI)
  assume "parse_diatheke_output lim output = Inr verses"
  then show "\<forall>v\<in>set verses. verse_text v \<noteq> []"
    unfolding parse_diatheke_output_def Let_def
    by (rule verses_of_text [rotated]) (rule verse_of_text)
next
  assume "parse_diatheke_output_bibles lim output = Inr verses"
  then show "\<forall>v\<in>set verses. verse_text v \<noteq> []"
    unfolding parse_diatheke_output_bibles_def Let_def
    by (rule verses_of_text [rotated]) (rule verse_of_bibles_text)
next
  assume "strip body = []"
  then show "verse_of lim ref body = Inr None"
    by (simp add: verse_of_def Let_def split: option.splits)
next
  assume "strip body = []"
  then show "verse_of_bibles lim ref body = Inr None"
    by (simp add: verse_of_bibles_def Let_def split: option.splits)
next
  show "\<exists>vs. parse_diatheke_output 0 output = Inr vs"
    unfolding parse_diatheke_output_def Let_def
    by (rule verses_of_total) (rule verse_of_no_limit)
next
  show "\<exists>vs. parse_diatheke_output_bibles 0 output = Inr vs"
    unfolding parse_diatheke_output_bibles_def Let_def
    by (rule verses_of_total) (rule verse_of_bibles_no_limit)
qed

lemma parse_example:
  "parse_diatheke_output 4300 (''Genesis 1:1: In the  beginning'' @ [newline] @ ''Genesis 1:2: '') =
     Inr [\<lparr>verse_number = 1, verse_text = ''In the beginning''\<rparr>]"
  by code_simp

lemma parse_bibles_example:
  "parse_diatheke_output_bibles 4300
     (''Genesis 1:1: In the  beginning'' @ [newline] @ ''Genesis 1:2: '') =
     Inr [\<lparr>verse_number = 1, verse_text = ''In the beginning''\<rparr>]"
  by code_simp

theorem emitted_verses_have_text_witness:
  "parse_diatheke_output 4300 (''Genesis 1:1: In the  beginning'' @ [newline] @ ''Genesis 1:2: '') =
     Inr [\<lparr>verse_number = 1, verse_text = ''In the beginning''\<rparr>] \<and>
   parse_diatheke_output_bibles 4300
     (''Genesis 1:1: In the  beginning'' @ [newline] @ ''Genesis 1:2: '') =
     Inr [\<lparr>verse_number = 1, verse_text = ''In the beginning''\<rparr>] \<and>
   verse_text \<lparr>verse_number = 1, verse_text = ''In the beginning''\<rparr> \<noteq> [] \<and>
   verse_of 4300 ''Genesis 1:2'' '' '' = Inr None \<and>
   verse_of_bibles 4300 ''Genesis 1:2'' '' '' = Inr None"
proof -
  let ?input = "''Genesis 1:1: In the  beginning'' @ [newline] @ ''Genesis 1:2: ''"
  let ?v = "\<lparr>verse_number = 1, verse_text = ''In the beginning''\<rparr>"
  have blank: "strip '' '' = []" by code_simp
  note inst = emitted_verses_have_text [of 4300 ?input "[?v]" "'' ''" "''Genesis 1:2''"]
  from inst parse_example have "\<forall>v\<in>set [?v]. verse_text v \<noteq> []" by blast
  then have "verse_text ?v \<noteq> []" by simp
  moreover from inst blank have "verse_of 4300 ''Genesis 1:2'' '' '' = Inr None"
    "verse_of_bibles 4300 ''Genesis 1:2'' '' '' = Inr None" by blast+
  ultimately show ?thesis using parse_example parse_bibles_example by blast
qed

section \<open>Input without verses\<close>

lemma strip_blank:
  assumes "blank s"
  shows "strip s = []"
proof -
  from assms have "\<forall>x\<in>set s. is_space x"
    by (simp add: blank_def list_all_iff)
  then have d: "dropWhile is_space s = []"
    by (simp only: dropWhile_eq_Nil_conv)
  show ?thesis unfolding strip_def d by simp
qed

lemma attribution_no_match_Nil: "rmatch n attribution_pattern ([], g) = []"
  by (simp add: attribution_pattern_def del: rmatch.simps(8))

lemma attribution_no_match_Cons:
  "c \<noteq> newline \<Longrightarrow> rmatch n attribution_pattern (c # cs, g) = []"
  by (simp add: attribution_pattern_def del: rmatch.simps(8))

lemma scan_attribution_None: "newline \<notin> set s \<Longrightarrow> scan n attribution_pattern s = None"
proof (induction s)
  case Nil
  then show ?case by (simp add: attribution_no_match_Nil)
next
  case (Cons c s)
  then have "c \<noteq> newline" by auto
  then have "rmatch n attribution_pattern (c # s, None) = []"
    by (rule attribution_no_match_Cons)
  moreover from Cons have "scan n attribution_pattern s = None" by simp
  ultimately show ?case by simp
qed

lemma re_sub_no_newline: "newline \<notin> set s \<Longrightarrow> re_sub attribution_pattern s = s"
  unfolding re_sub_def by (subst sub_from.simps) (simp add: scan_attribution_None)

lemma marker_no_match_Nil: "rmatch n marker_pattern ([], g) = []"
  by (simp add: marker_pattern_def reference_pattern_def Plus_def del: rmatch.simps(8))

lemma marker_no_match_inside:
  "length (c # cs) \<noteq> n \<Longrightarrow> c \<noteq> newline \<Longrightarrow> rmatch n marker_pattern (c # cs, g) = []"
  by (simp add: marker_pattern_def del: rmatch.simps(8))

lemma marker_no_match_start:
  "\<not> is_alpha c \<Longrightarrow> \<not> is_digit c \<Longrightarrow> c \<noteq> CHR '' '' \<Longrightarrow> c \<noteq> newline \<Longrightarrow>
   rmatch n marker_pattern (c # cs, g) = []"
  by (simp add: marker_pattern_def reference_pattern_def Plus_def del: rmatch.simps(8))

lemma scan_marker_inside:
  "newline \<notin> set s \<Longrightarrow> length s < n \<Longrightarrow> scan n marker_pattern s = None"
proof (induction s)
  case Nil
  then show ?case by (simp add: marker_no_match_Nil)
next
  case (Cons c s)
  then have "length (c # s) \<noteq> n" "c \<noteq> newline" by auto
  then have "rmatch n marker_pattern (c # s, None) = []"
    by (rule marker_no_match_inside)
  moreover from Cons have "scan n marker_pattern s = None" by simp
  ultimately show ?case by simp
qed

lemma re_split_no_marker:
  assumes "newline \<notin> set s"
    and "s = [] \<or> (\<not> is_alpha (hd s) \<and> \<not> is_digit (hd s) \<and> hd s \<noteq> CHR '' '')"
  shows "re_split marker_pattern s = [s]"
proof -
  have "scan (length s) marker_pattern s = None"
  proof (cases s)
    case Nil
    then show ?thesis by (simp add: marker_no_match_Nil)
  next
    case (Cons c cs)
    with assms have c: "\<not> is_alpha c" "\<not> is_digit c" "c \<noteq> CHR '' ''" "c \<noteq> newline"
      by auto
    have "rmatch (length s) marker_pattern (c # cs, None) = []"
      using c by (rule marker_no_match_start)
    moreover from Cons assms(1) have "scan (length s) marker_pattern cs = None"
      by (simp add: scan_marker_inside)
    ultimately show ?thesis using Cons by simp
  qed
  then show ?thesis
    unfolding re_split_def by (subst split_from.simps) simp
qed

lemma attribution_line_shape:
  assumes "attribution_line s"
  shows "newline \<notin> set s \<and> s \<noteq> [] \<and> hd s = CHR ''(''"
proof -
  from assms obtain cs where s: "s = CHR ''('' # cs" and cs: "cs \<noteq> []"
    and l: "last cs = CHR '')''"
    and b: "list_all (\<lambda>x. x \<noteq> CHR '')'' \<and> x \<noteq> newline) (butlast cs)"
    by (cases s) (auto simp: attribution_line_def)
  from cs have "butlast cs @ [last cs] = cs" by simp
  then have "set cs = set (butlast cs @ [last cs])" by simp
  then have "set cs = insert (last cs) (set (butlast cs))" by simp
  moreover have "last cs \<noteq> newline" using l by (simp add: newline_def)
  moreover have "newline \<notin> set (butlast cs)" using b by (auto simp: list_all_iff)
  ultimately have "newline \<notin> set cs" by simp
  with s show ?thesis by (simp add: newline_def)
qed

lemma no_verses:
  assumes "strip output = [] \<or> attribution_line (strip output)"
  shows "verses_of body
           (drop 1 (re_split marker_pattern (re_sub attribution_pattern (strip output)))) = Inr []"
proof -
  let ?s = "strip output"
  have n: "newline \<notin> set ?s"
    using assms attribution_line_shape by auto
  have "\<not> is_alpha (CHR ''('')" "\<not> is_digit (CHR ''('')"
    by (simp_all add: is_alpha_def is_digit_def)
  then have "?s = [] \<or> (\<not> is_alpha (hd ?s) \<and> \<not> is_digit (hd ?s) \<and> hd ?s \<noteq> CHR '' '')"
    using assms attribution_line_shape [of ?s] by auto
  with n have "re_split marker_pattern ?s = [?s]" by (rule re_split_no_marker)
  moreover from n have "re_sub attribution_pattern ?s = ?s" by (rule re_sub_no_newline)
  ultimately show ?thesis by simp
qed

text \<open>
  C7. For an input that is empty or white space only, or that is, apart from white
  space around it, one line of attribution such as \<^verbatim>\<open>(KJV)\<close>, both parsers return the
  empty list of verses: a value, not an error.
\<close>

theorem no_verses_in_empty_or_attribution:
  assumes "blank output \<or> attribution_line (strip output)"
  shows "parse_diatheke_output lim output = Inr [] \<and>
         parse_diatheke_output_bibles lim output = Inr []"
proof -
  from assms have "strip output = [] \<or> attribution_line (strip output)"
    using strip_blank by blast
  then have "verses_of (verse_of lim)
      (drop 1 (re_split marker_pattern (re_sub attribution_pattern (strip output)))) = Inr []"
    "verses_of (verse_of_bibles lim)
      (drop 1 (re_split marker_pattern (re_sub attribution_pattern (strip output)))) = Inr []"
    by (rule no_verses)+
  then show ?thesis
    by (simp only: parse_diatheke_output_def parse_diatheke_output_bibles_def Let_def simp_thms)
qed

theorem no_verses_in_empty_or_attribution_witness:
  "parse_diatheke_output 4300 [] = Inr [] \<and>
   parse_diatheke_output_bibles 4300 [] = Inr [] \<and>
   parse_diatheke_output 4300 ('' '' @ [newline]) = Inr [] \<and>
   parse_diatheke_output_bibles 4300 ('' '' @ [newline]) = Inr [] \<and>
   parse_diatheke_output 4300 ''(KJV)'' = Inr [] \<and>
   parse_diatheke_output_bibles 4300 ''(KJV)'' = Inr []"
proof -
  have 1: "blank [] \<or> attribution_line (strip [])"
    by (simp add: blank_def)
  have 2: "blank ('' '' @ [newline]) \<or> attribution_line (strip ('' '' @ [newline]))"
    by (simp add: blank_def is_space_def newline_def)
  have "attribution_line (strip ''(KJV)'')" by code_simp
  then have 3: "blank ''(KJV)'' \<or> attribution_line (strip ''(KJV)'')" by simp
  from no_verses_in_empty_or_attribution [OF 1, of 4300]
    no_verses_in_empty_or_attribution [OF 2, of 4300]
    no_verses_in_empty_or_attribution [OF 3, of 4300]
  show ?thesis by blast
qed

section \<open>What the matcher reads\<close>

declare rmatch.simps(8) [simp del]
declare split_from.simps [simp del]
declare sub_from.simps [simp del]

lemma rmatch_Seq_iff:
  "st'' \<in> set (rmatch n (Seq r1 r2) st) \<longleftrightarrow>
     (\<exists>st'. st' \<in> set (rmatch n r1 st) \<and> st'' \<in> set (rmatch n r2 st'))"
  by auto

lemma rmatch_Lit_sound:
  "(s', g') \<in> set (rmatch n (Lit c) (s, g)) \<Longrightarrow> g' = g \<and> s = c # s'"
  by (cases s) (auto split: if_splits)

lemma rmatch_Class_sound:
  "(s', g') \<in> set (rmatch n (Class p) (s, g)) \<Longrightarrow> g' = g \<and> (\<exists>c. p c \<and> s = c # s')"
  by (cases s) (auto split: if_splits)

lemma rmatch_Star_Class_Nil: "rmatch n (Star (Class p)) ([], g) = [([], g)]"
  by (subst rmatch.simps(8)) simp

lemma rmatch_Star_Class_Cons:
  "rmatch n (Star (Class p)) (c # cs, g) =
     (if p c then rmatch n (Star (Class p)) (cs, g) else []) @ [(c # cs, g)]"
  by (subst rmatch.simps(8)) simp

lemma rmatch_Star_Class_sound:
  "(s', g') \<in> set (rmatch n (Star (Class p)) (s, g)) \<Longrightarrow>
   g' = g \<and> (\<exists>w. s = w @ s' \<and> (\<forall>c\<in>set w. p c))"
proof (induction s)
  case Nil
  then show ?case by (simp add: rmatch_Star_Class_Nil)
next
  case (Cons c cs)
  from Cons.prems have "(s', g') = (c # cs, g) \<or>
      (p c \<and> (s', g') \<in> set (rmatch n (Star (Class p)) (cs, g)))"
    by (auto simp: rmatch_Star_Class_Cons split: if_splits)
  then show ?case
  proof
    assume "(s', g') = (c # cs, g)"
    then show ?thesis by simp
  next
    assume h: "p c \<and> (s', g') \<in> set (rmatch n (Star (Class p)) (cs, g))"
    with Cons.IH obtain w where "g' = g" "cs = w @ s'" "\<forall>x\<in>set w. p x" by blast
    with h have "c # cs = (c # w) @ s' \<and> (\<forall>x\<in>set (c # w). p x)" by simp
    with \<open>g' = g\<close> show ?thesis by blast
  qed
qed

lemma rmatch_Plus_Class_sound:
  assumes "(s', g') \<in> set (rmatch n (Plus (Class p)) (s, g))"
  shows "g' = g \<and> (\<exists>w. w \<noteq> [] \<and> s = w @ s' \<and> (\<forall>c\<in>set w. p c))"
proof -
  from assms obtain st where 1: "st \<in> set (rmatch n (Class p) (s, g))"
    and 2: "(s', g') \<in> set (rmatch n (Star (Class p)) st)"
    unfolding Plus_def rmatch_Seq_iff by blast
  obtain s1 g1 where st: "st = (s1, g1)" by (cases st)
  from 1 st obtain c where c: "g1 = g" "p c" "s = c # s1"
    using rmatch_Class_sound by blast
  from 2 st c(1) obtain w where w: "g' = g" "s1 = w @ s'" "\<forall>x\<in>set w. p x"
    using rmatch_Star_Class_sound by blast
  from c w have "c # w \<noteq> [] \<and> s = (c # w) @ s' \<and> (\<forall>x\<in>set (c # w). p x)" by simp
  with w(1) show ?thesis by blast
qed

lemma rmatch_Star_Class_all:
  "\<forall>c\<in>set d. p c \<Longrightarrow> (s, g) \<in> set (rmatch n (Star (Class p)) (d @ s, g))"
proof (induction d)
  case Nil
  show ?case
  proof (cases s)
    case Nil
    then show ?thesis by (simp add: rmatch_Star_Class_Nil)
  next
    case (Cons c cs)
    then show ?thesis by (simp add: rmatch_Star_Class_Cons)
  qed
next
  case (Cons c d)
  then show ?case by (simp add: rmatch_Star_Class_Cons)
qed

lemma rmatch_Plus_Class_all:
  assumes "d \<noteq> []" and "\<forall>c\<in>set d. p c"
  shows "(s, g) \<in> set (rmatch n (Plus (Class p)) (d @ s, g))"
proof -
  from assms obtain c d' where d: "d = c # d'" by (cases d) auto
  with assms(2) have "p c" "\<forall>x\<in>set d'. p x" by simp_all
  then have "(d' @ s, g) \<in> set (rmatch n (Class p) (d @ s, g))"
    "(s, g) \<in> set (rmatch n (Star (Class p)) (d' @ s, g))"
    using d rmatch_Star_Class_all by simp_all
  then show ?thesis unfolding Plus_def rmatch_Seq_iff by blast
qed

text \<open>The group of the marker pattern reads a reference that ends in a colon and digits.\<close>

lemma reference_pattern_sound:
  assumes "(s', g') \<in> set (rmatch n reference_pattern (s, g))"
  shows "\<exists>x d. s = x @ CHR '':'' # d @ s' \<and> d \<noteq> [] \<and> (\<forall>c\<in>set d. is_digit c) \<and>
           (\<exists>c\<in>set x. is_digit c)"
proof -
  let ?name = "Class (\<lambda>c. is_alpha c \<or> is_digit c \<or> c = CHR '' '')"
  from assms obtain st1 st2 st3 st4 where
    1: "st1 \<in> set (rmatch n (Plus ?name) (s, g))" and
    2: "st2 \<in> set (rmatch n (Plus (Class is_space)) st1)" and
    3: "st3 \<in> set (rmatch n (Plus (Class is_digit)) st2)" and
    4: "st4 \<in> set (rmatch n (Lit (CHR '':'')) st3)" and
    5: "(s', g') \<in> set (rmatch n (Plus (Class is_digit)) st4)"
    unfolding reference_pattern_def seqs.simps rmatch_Seq_iff by blast
  obtain s1 g1 s2 g2 s3 g3 s4 g4 where
    st: "st1 = (s1, g1)" "st2 = (s2, g2)" "st3 = (s3, g3)" "st4 = (s4, g4)"
    by (cases st1, cases st2, cases st3, cases st4) blast
  from 1 st obtain w1 where w1: "s = w1 @ s1"
    using rmatch_Plus_Class_sound by blast
  from 2 st obtain w2 where w2: "s1 = w2 @ s2"
    using rmatch_Plus_Class_sound by blast
  from 3 st obtain w3 where w3: "w3 \<noteq> []" "s2 = w3 @ s3" "\<forall>c\<in>set w3. is_digit c"
    using rmatch_Plus_Class_sound by blast
  from 4 st have c: "s3 = CHR '':'' # s4"
    using rmatch_Lit_sound by blast
  from 5 st obtain d where d: "d \<noteq> []" "s4 = d @ s'" "\<forall>c\<in>set d. is_digit c"
    using rmatch_Plus_Class_sound by blast
  from w3 have "\<exists>c\<in>set (w1 @ w2 @ w3). is_digit c" by (cases w3) auto
  moreover have "s = (w1 @ w2 @ w3) @ CHR '':'' # d @ s'"
    using w1 w2 w3(2) c d(2) by simp
  ultimately show ?thesis using d(1,3) by blast
qed

lemma rmatch_keeps_group_Lit:
  "(s', g') \<in> set (rmatch n (Lit c) (s, g)) \<Longrightarrow> g' = g"
  using rmatch_Lit_sound by blast

lemma marker_pattern_sound:
  assumes "(s', g') \<in> set (rmatch n marker_pattern (s, g))"
  shows "\<exists>x d. g' = Some (x @ CHR '':'' # d) \<and> d \<noteq> [] \<and> (\<forall>c\<in>set d. is_digit c) \<and>
           (\<exists>c\<in>set x. is_digit c)"
proof -
  from assms obtain st1 st2 st3 where
    1: "st1 \<in> set (rmatch n (Alt Bos (Lit newline)) (s, g))" and
    2: "st2 \<in> set (rmatch n (Group reference_pattern) st1)" and
    3: "st3 \<in> set (rmatch n (Lit (CHR '':'')) st2)" and
    4: "(s', g') \<in> set (rmatch n (Star (Class is_space)) st3)"
    unfolding marker_pattern_def seqs.simps rmatch_Seq_iff by blast
  obtain s1 g1 s2 g2 s3 g3 where st: "st1 = (s1, g1)" "st2 = (s2, g2)" "st3 = (s3, g3)"
    by (cases st1, cases st2, cases st3) blast
  from 2 st obtain u where u: "(s2, u) \<in> set (rmatch n reference_pattern (s1, g1))"
    and g2: "g2 = Some (take (length s1 - length s2) s1)"
    by auto
  from reference_pattern_sound [OF u] obtain x d where
    xd: "s1 = x @ CHR '':'' # d @ s2" "d \<noteq> []" "\<forall>c\<in>set d. is_digit c" "\<exists>c\<in>set x. is_digit c"
    by blast
  from xd(1) have "s1 = (x @ CHR '':'' # d) @ s2" by simp
  then have "take (length s1 - length s2) s1 = x @ CHR '':'' # d"
    by (metis add_diff_cancel_right' append_eq_conv_conj length_append)
  with g2 have "g2 = Some (x @ CHR '':'' # d)" by simp
  moreover from 3 st have "g3 = g2" using rmatch_Lit_sound by blast
  moreover from 4 st have "g' = g3" using rmatch_Star_Class_sound by blast
  ultimately show ?thesis using xd(2,3,4) by blast
qed

lemma scan_result:
  "scan n r s = Some (skipped, st) \<Longrightarrow> \<exists>s'. st \<in> set (rmatch n r (s', None))"
proof (induction s arbitrary: skipped)
  case Nil
  then show ?case
    by (cases "rmatch n r ([], None)") (auto intro: exI [of _ "[]"])
next
  case (Cons c cs)
  show ?case
  proof (cases "rmatch n r (c # cs, None)")
    case Nil
    with Cons.prems obtain sk where "scan n r cs = Some (sk, st)"
      by (auto split: option.splits)
    with Cons.IH show ?thesis by blast
  next
    case (Cons st' sts)
    with Cons.prems have "st = st'" by simp
    with Cons have "st \<in> set (rmatch n r (c # cs, None))" by simp
    then show ?thesis by blast
  qed
qed

lemma scan_finds:
  "rmatch n r (s, None) \<noteq> [] \<Longrightarrow> scan n r (y @ s) \<noteq> None"
proof (induction y)
  case Nil
  then show ?case
    by (cases s; cases "rmatch n r (s, None)") auto
next
  case (Cons c y)
  then show ?case
    by (cases "rmatch n r (c # y @ s, None)") (auto split: option.splits)
qed

lemma split_from_not_empty: "split_from n r s \<noteq> []"
  by (subst split_from.simps) (simp split: option.splits)

lemma split_from_refs:
  "(ref, body) \<in> set (pairs (drop 1 (split_from n r s))) \<Longrightarrow>
   \<exists>s' skipped rest g. scan n r s' = Some (skipped, rest, g) \<and> ref = get_default g []"
proof (induction n r s rule: split_from.induct)
  case (1 n r s)
  show ?case
  proof (cases "scan n r s")
    case None
    with "1.prems" show ?thesis by (subst (asm) split_from.simps) simp
  next
    case (Some found)
    obtain skipped rest g where found: "found = (skipped, rest, g)" by (cases found)
    show ?thesis
    proof (cases "length rest < length s")
      case False
      with Some found "1.prems" show ?thesis by (subst (asm) split_from.simps) simp
    next
      case True
      obtain x xs where xs: "split_from n r rest = x # xs"
        using split_from_not_empty by (cases "split_from n r rest") auto
      from True Some found have "split_from n r s = skipped # get_default g [] # split_from n r rest"
        by (subst split_from.simps) simp
      with "1.prems" xs have "(ref, body) = (get_default g [], x) \<or> (ref, body) \<in> set (pairs xs)"
        by simp
      then show ?thesis
      proof
        assume "(ref, body) = (get_default g [], x)"
        with Some found show ?thesis by blast
      next
        assume "(ref, body) \<in> set (pairs xs)"
        with xs have "(ref, body) \<in> set (pairs (drop 1 (split_from n r rest)))" by simp
        with "1.IH" [OF Some found [symmetric] _ True] show ?thesis by blast
      qed
    qed
  qed
qed

section \<open>Trimming\<close>

lemma is_digit_not_space: "is_digit c \<Longrightarrow> \<not> is_space c"
  by (auto simp: is_digit_def is_space_def)

lemma strip_Nil: "strip [] = []"
  by (simp add: strip_def)

lemma strip_keeps_end:
  assumes "s \<noteq> []" and "\<not> is_space (last s)"
  shows "strip s = dropWhile is_space s"
proof -
  let ?u = "dropWhile is_space s"
  from assms have "last s \<in> set s" "\<not> is_space (last s)" by simp_all
  then have "\<not> (\<forall>x\<in>set s. is_space x)" by blast
  then have u: "?u \<noteq> []" by (simp only: dropWhile_eq_Nil_conv) simp
  have "takeWhile is_space s @ ?u = s" by simp
  with u have "last ?u = last s" by (metis last_appendR)
  with assms(2) u have "\<not> is_space (hd (rev ?u))" by (simp add: hd_rev)
  then have "dropWhile is_space (rev ?u) = rev ?u"
    by (simp only: dropWhile_eq_self_iff) simp
  then show ?thesis by (simp add: strip_def)
qed

lemma strip_strip: "strip (strip s) = strip s"
proof (cases "strip s = []")
  case True
  then show ?thesis by (simp add: strip_Nil)
next
  case False
  let ?u = "dropWhile is_space s"
  let ?w = "strip s"
  from False have end_ok: "\<not> is_space (last ?w)" by (rule strip_ends_in_text)
  have "rev (dropWhile is_space (rev ?u)) @ rev (takeWhile is_space (rev ?u)) =
      rev (takeWhile is_space (rev ?u) @ dropWhile is_space (rev ?u))"
    by (simp only: rev_append)
  also have "\<dots> = rev (rev ?u)" by (simp only: takeWhile_dropWhile_id)
  also have "\<dots> = ?u" by (simp only: rev_rev_ident)
  finally have u: "?u = ?w @ rev (takeWhile is_space (rev ?u))"
    unfolding strip_def by (rule sym)
  from False u have une: "?u \<noteq> []" by (metis Nil_is_append_conv)
  then have "\<not> is_space (hd ?u)" by (rule hd_dropWhile)
  moreover from u False have "hd ?u = hd ?w" by (metis hd_append2)
  ultimately have "\<not> is_space (hd ?w)" by simp
  then have "dropWhile is_space ?w = ?w"
    by (simp only: dropWhile_eq_self_iff) simp
  with strip_keeps_end [OF False end_ok] show ?thesis by simp
qed

lemma strip_reference:
  assumes "\<exists>c\<in>set x. is_digit c" and "d \<noteq> []" and "\<forall>c\<in>set d. is_digit c"
  shows "strip (x @ CHR '':'' # d) = dropWhile is_space x @ CHR '':'' # d"
proof -
  let ?s = "x @ CHR '':'' # d"
  from assms(2) have "last ?s = last d" by simp
  moreover from assms(2,3) have "is_digit (last d)" by simp
  ultimately have "\<not> is_space (last ?s)" by (simp add: is_digit_not_space)
  then have "strip ?s = dropWhile is_space ?s"
    by (intro strip_keeps_end) simp_all
  moreover from assms(1) obtain c where "c \<in> set x" "\<not> is_space c"
    using is_digit_not_space by blast
  then have "dropWhile is_space ?s = dropWhile is_space x @ CHR '':'' # d"
    by (rule dropWhile_append1)
  ultimately show ?thesis by simp
qed

section \<open>The reference of a marker names a verse\<close>

lemma verse_pattern_group:
  assumes "(rest, g) \<in> set (rmatch n verse_pattern (s, g0))"
  shows "\<exists>ds. g = Some ds"
proof -
  from assms obtain st1 st2 where
    2: "st2 \<in> set (rmatch n (Group (Plus (Class is_digit))) st1)" and
    3: "(rest, g) \<in> set (rmatch n Eos st2)"
    unfolding verse_pattern_def seqs.simps rmatch_Seq_iff by blast
  obtain s1 g1 s2 g2 where st: "st1 = (s1, g1)" "st2 = (s2, g2)"
    by (cases st1, cases st2) blast
  from 2 st obtain ds where "g2 = Some ds" by auto
  moreover from 3 st have "g = g2" by (auto split: if_splits)
  ultimately show ?thesis by simp
qed

lemma verse_pattern_matches:
  assumes "d \<noteq> []" and "\<forall>c\<in>set d. is_digit c"
  shows "rmatch n verse_pattern (CHR '':'' # d, g) \<noteq> []"
proof -
  have 1: "(d, g) \<in> set (rmatch n (Lit (CHR '':'')) (CHR '':'' # d, g))" by simp
  have "([], g) \<in> set (rmatch n (Plus (Class is_digit)) (d @ [], g))"
    using assms by (rule rmatch_Plus_Class_all)
  then have "([], g) \<in> set (rmatch n (Plus (Class is_digit)) (d, g))" by simp
  then have 2: "([], Some (take (length d - length ([]::string)) d)) \<in>
      set (rmatch n (Group (Plus (Class is_digit))) (d, g))"
    by force
  have 3: "([], Some (take (length d - length ([]::string)) d)) \<in>
      set (rmatch n Eos ([], Some (take (length d - length ([]::string)) d)))"
    by simp
  from 1 2 3 have "([], Some (take (length d - length ([]::string)) d)) \<in>
      set (rmatch n verse_pattern (CHR '':'' # d, g))"
    unfolding verse_pattern_def seqs.simps rmatch_Seq_iff by blast
  then show ?thesis by auto
qed

lemma verse_pattern_found:
  assumes "d \<noteq> []" and "\<forall>c\<in>set d. is_digit c"
  shows "\<exists>skipped rest ds. re_search verse_pattern (y @ CHR '':'' # d) = Some (skipped, rest, Some ds)"
proof -
  let ?s = "y @ CHR '':'' # d"
  have "rmatch (length ?s) verse_pattern (CHR '':'' # d, None) \<noteq> []"
    using assms by (rule verse_pattern_matches)
  then have "scan (length ?s) verse_pattern ?s \<noteq> None" by (rule scan_finds)
  then obtain skipped rest g where found: "scan (length ?s) verse_pattern ?s = Some (skipped, rest, g)"
    by auto
  then obtain s' where "(rest, g) \<in> set (rmatch (length ?s) verse_pattern (s', None))"
    using scan_result by blast
  then obtain ds where "g = Some ds" using verse_pattern_group by blast
  with found show ?thesis by (simp add: re_search_def)
qed

lemma marker_ref_names_verse:
  assumes "(ref, body) \<in> set (marker_pairs output)"
  shows "\<exists>skipped rest ds. re_search verse_pattern (strip ref) = Some (skipped, rest, Some ds)"
proof -
  from assms obtain n s where "(ref, body) \<in> set (pairs (drop 1 (split_from n marker_pattern s)))"
    unfolding marker_pairs_def re_split_def by blast
  then obtain s' skipped rest g where found: "scan n marker_pattern s' = Some (skipped, rest, g)"
    and ref: "ref = get_default g []"
    using split_from_refs by blast
  from found obtain s'' where "(rest, g) \<in> set (rmatch n marker_pattern (s'', None))"
    using scan_result by blast
  then obtain x d where xd: "g = Some (x @ CHR '':'' # d)" "d \<noteq> []" "\<forall>c\<in>set d. is_digit c"
    "\<exists>c\<in>set x. is_digit c"
    using marker_pattern_sound by blast
  from ref xd(1) have "ref = x @ CHR '':'' # d" by (simp add: get_default_def)
  with strip_reference [OF xd(4) xd(2) xd(3)]
  have "strip ref = dropWhile is_space x @ CHR '':'' # d" by simp
  with verse_pattern_found [OF xd(2) xd(3), of "dropWhile is_space x"] show ?thesis by simp
qed

section \<open>Placeholders\<close>

lemma verse_of_placeholder: "is_placeholder_text (strip t) \<Longrightarrow> verse_of lim r t = Inr None"
  by (simp add: verse_of_def Let_def split: option.splits)

lemma is_placeholder_text_iff:
  "is_placeholder_text (strip t) =
     (length (strip t) < 5 \<or> re_match placeholder_pattern (strip t) \<noteq> None)"
  by (simp add: is_placeholder_text_def Let_def strip_strip)

lemma verse_of_kept:
  assumes "re_search verse_pattern (strip r) = Some (skipped, rest, Some ds)"
    and "verse_of lim r t = Inr v"
  shows "(v = None) = is_placeholder_text (strip t)"
    and "v = Some x \<Longrightarrow> verse_text x = join '' '' (py_split (strip t))"
proof -
  have empty: "strip t = [] \<Longrightarrow> is_placeholder_text (strip t)"
    by (simp add: is_placeholder_text_def Let_def strip_Nil)
  show "(v = None) = is_placeholder_text (strip t)"
    using assms empty
    by (auto simp: verse_of_def Let_def split: if_splits sum.splits)
  show "v = Some x \<Longrightarrow> verse_text x = join '' '' (py_split (strip t))"
    using assms
    by (auto simp: verse_of_def Let_def split: if_splits sum.splits)
qed

lemma verses_of_kept:
  "verses_of (verse_of lim) parts = Inr verses \<Longrightarrow>
   (\<And>r t. (r, t) \<in> set (pairs parts) \<Longrightarrow>
      \<exists>skipped rest ds. re_search verse_pattern (strip r) = Some (skipped, rest, Some ds)) \<Longrightarrow>
   map verse_text verses =
     map (\<lambda>(r, b). join '' '' (py_split (strip b)))
       (filter (\<lambda>(r, b). \<not> is_placeholder_text (strip b)) (pairs parts))"
proof (induction parts arbitrary: verses rule: pairs.induct)
  case (1 r t rest)
  from "1.prems"(1) obtain v vs where v: "verse_of lim r t = Inr v"
    and vs: "verses_of (verse_of lim) rest = Inr vs"
    and verses: "verses = (case v of None \<Rightarrow> vs | Some x \<Rightarrow> x # vs)"
    by (auto split: sum.splits)
  have rest_ok: "\<exists>skipped rest ds. re_search verse_pattern (strip r') = Some (skipped, rest, Some ds)"
    if "(r', t') \<in> set (pairs rest)" for r' t'
    using that "1.prems"(2) [of r' t'] by simp
  have "map verse_text vs =
     map (\<lambda>(r, b). join '' '' (py_split (strip b)))
       (filter (\<lambda>(r, b). \<not> is_placeholder_text (strip b)) (pairs rest))"
    using vs rest_ok by (rule "1.IH")
  moreover obtain skipped rest' ds where
    m: "re_search verse_pattern (strip r) = Some (skipped, rest', Some ds)"
    using "1.prems"(2) [of r t] by auto
  ultimately show ?case
    using verse_of_kept [OF m v] verses by (cases v) simp_all
qed simp_all

text \<open>
  C4, as amended. For every raw output, the parser of \<^verbatim>\<open>extract_scriptures.py\<close>
  discards the body that follows a marker exactly when the trimmed body is shorter than
  5 characters or matches the placeholder pattern of the code from its start to its
  end: an optional book number (1 to 4, or I, II, III, IV) and white space, words of
  letters separated by white space, white space, digits, a colon, digits and an
  optional colon. The texts of the verses it returns are the normalized bodies that are
  not discarded, in order. The body \<^verbatim>\<open>II Chronicles 19:2:\<close> is always discarded.
\<close>

theorem placeholder_bodies_discarded:
  "((ref, body) \<in> set (marker_pairs output) \<longrightarrow>
      (verse_of lim ref body = Inr None) =
        (length (strip body) < 5 \<or> re_match placeholder_pattern (strip body) \<noteq> None)) \<and>
   (parse_diatheke_output lim output = Inr verses \<longrightarrow>
      map verse_text verses =
        map (\<lambda>(r, b). join '' '' (py_split (strip b)))
          (filter (\<lambda>(r, b). \<not> (length (strip b) < 5 \<or>
                                 re_match placeholder_pattern (strip b) \<noteq> None))
             (marker_pairs output))) \<and>
   verse_of lim any_ref ''II Chronicles 19:2:'' = Inr None"
proof (intro conjI impI)
  assume pair: "(ref, body) \<in> set (marker_pairs output)"
  then obtain skipped rest ds where
    m: "re_search verse_pattern (strip ref) = Some (skipped, rest, Some ds)"
    using marker_ref_names_verse by blast
  show "(verse_of lim ref body = Inr None) =
        (length (strip body) < 5 \<or> re_match placeholder_pattern (strip body) \<noteq> None)"
  proof
    assume "verse_of lim ref body = Inr None"
    from verse_of_kept(1) [OF m this] show
      "length (strip body) < 5 \<or> re_match placeholder_pattern (strip body) \<noteq> None"
      by (simp add: is_placeholder_text_iff)
  next
    assume "length (strip body) < 5 \<or> re_match placeholder_pattern (strip body) \<noteq> None"
    then have "is_placeholder_text (strip body)" by (simp add: is_placeholder_text_iff)
    then show "verse_of lim ref body = Inr None" by (rule verse_of_placeholder)
  qed
next
  assume "parse_diatheke_output lim output = Inr verses"
  then have "verses_of (verse_of lim)
      (drop 1 (re_split marker_pattern (re_sub attribution_pattern (strip output)))) = Inr verses"
    by (simp add: parse_diatheke_output_def Let_def)
  then have "map verse_text verses =
     map (\<lambda>(r, b). join '' '' (py_split (strip b)))
       (filter (\<lambda>(r, b). \<not> is_placeholder_text (strip b)) (marker_pairs output))"
    unfolding marker_pairs_def
    by (rule verses_of_kept) (rule marker_ref_names_verse, simp add: marker_pairs_def)
  then show "map verse_text verses =
        map (\<lambda>(r, b). join '' '' (py_split (strip b)))
          (filter (\<lambda>(r, b). \<not> (length (strip b) < 5 \<or>
                                 re_match placeholder_pattern (strip b) \<noteq> None))
             (marker_pairs output))"
    by (simp add: is_placeholder_text_iff)
next
  have "is_placeholder_text (strip ''II Chronicles 19:2:'')" by code_simp
  then show "verse_of lim any_ref ''II Chronicles 19:2:'' = Inr None"
    by (rule verse_of_placeholder)
qed

lemma placeholder_example_pairs:
  "marker_pairs (''Gen 1:1: II Chronicles 19:2:'' @ [newline] @ ''Gen 1:2: And God said'') =
     [(''Gen 1:1'', ''II Chronicles 19:2:''), (''Gen 1:2'', ''And God said'')]"
  by code_simp

lemma placeholder_example_parse:
  "parse_diatheke_output 4300
     (''Gen 1:1: II Chronicles 19:2:'' @ [newline] @ ''Gen 1:2: And God said'') =
     Inr [\<lparr>verse_number = 2, verse_text = ''And God said''\<rparr>]"
  by code_simp

lemma placeholder_example_match:
  "length (strip ''II Chronicles 19:2:'') < 5 \<or>
   re_match placeholder_pattern (strip ''II Chronicles 19:2:'') \<noteq> None"
  by code_simp

theorem placeholder_bodies_discarded_witness:
  "marker_pairs (''Gen 1:1: II Chronicles 19:2:'' @ [newline] @ ''Gen 1:2: And God said'') =
     [(''Gen 1:1'', ''II Chronicles 19:2:''), (''Gen 1:2'', ''And God said'')] \<and>
   verse_of 4300 ''Gen 1:1'' ''II Chronicles 19:2:'' = Inr None \<and>
   parse_diatheke_output 4300
     (''Gen 1:1: II Chronicles 19:2:'' @ [newline] @ ''Gen 1:2: And God said'') =
     Inr [\<lparr>verse_number = 2, verse_text = ''And God said''\<rparr>]"
proof -
  let ?input = "''Gen 1:1: II Chronicles 19:2:'' @ [newline] @ ''Gen 1:2: And God said''"
  have pair: "(''Gen 1:1'', ''II Chronicles 19:2:'') \<in> set (marker_pairs ?input)"
    unfolding placeholder_example_pairs by simp
  from placeholder_bodies_discarded
    [of "''Gen 1:1''" "''II Chronicles 19:2:''" ?input 4300
      "[\<lparr>verse_number = 2, verse_text = ''And God said''\<rparr>]" "''Gen 1:1''"]
    pair placeholder_example_match
  have "verse_of 4300 ''Gen 1:1'' ''II Chronicles 19:2:'' = Inr None" by blast
  with placeholder_example_pairs placeholder_example_parse show ?thesis by blast
qed

text \<open>
  The specification names the pattern of the reference marker for this test; the code
  has a pattern of its own. The body
  \<^verbatim>\<open>1John 3:16:\<close> is read whole by the marker pattern and has 11 characters, and the
  parser keeps it as the text of a verse; the body \<^verbatim>\<open>Genesis 1:1\<close> is not a marker,
  since no colon follows it, and the parser discards it.
\<close>

theorem placeholder_counterexample:
  "re_match marker_pattern ''1John 3:16:'' = Some ([], Some ''1John 3:16'') \<and>
   length (strip ''1John 3:16:'') = 11 \<and>
   parse_diatheke_output 4300 ''Gen 1:1: 1John 3:16:'' =
     Inr [\<lparr>verse_number = 1, verse_text = ''1John 3:16:''\<rparr>] \<and>
   re_match marker_pattern ''Genesis 1:1'' = None \<and>
   length (strip ''Genesis 1:1'') = 11 \<and>
   parse_diatheke_output 4300 ''Gen 1:1: Genesis 1:1'' = Inr []"
  by code_simp

end
